theory Spec2Isabelle
  imports Complex_Main "HOL-Library.Log_Nat"
begin

section \<open>Numbers\<close>

text \<open>
  The components compute with JavaScript numbers, which are IEEE binary64 values. A number
  is read here as the rational it denotes, and the arithmetic whose rounding shows in what
  the components do is rounded the way binary64 rounds it: the quotients and the products
  of lines 103, 104 and 124 of the overlay, and in the recorder the nominal interval, the
  period of the timer and the test of line 48. Clock readings, elapsed times, progress
  values and the arithmetic of the bounding box are kept exact.

  \<open>fl\<close> rounds a rational to the nearest number with a 53-bit significand, a tie going to
  the even significand. \<open>binade x\<close> is the exponent \<open>e\<close> with \<open>2^e \<le> |x| < 2^(e+1)\<close> and
  \<open>ulp x\<close> the spacing of the representable numbers there. The exponent is not bounded,
  so \<open>fl\<close> is binary64 for magnitudes from \<open>2^-1022\<close> up to \<open>2^1024\<close>, which nothing here
  leaves. \<open>Math.round\<close> rounds half up and \<open>Math.floor\<close> is \<open>floor\<close>; both are exact.
\<close>

definition rne :: "rat \<Rightarrow> int" where
  "rne q =
     (let f = \<lfloor>q\<rfloor>; r = q - of_int f
      in if r < 1 / 2 then f else if 1 / 2 < r then f + 1 else if even f then f else f + 1)"

definition binade :: "rat \<Rightarrow> int" where
  "binade x =
     (if 1 \<le> \<bar>x\<bar> then bitlen \<lfloor>\<bar>x\<bar>\<rfloor> - 1 else - bitlen (\<lceil>1 / \<bar>x\<bar>\<rceil> - 1))"

definition ulp :: "rat \<Rightarrow> rat" where
  "ulp x = 2 powi (binade x - 52)"

definition fl :: "rat \<Rightarrow> rat" where
  "fl x = sgn x * (of_int (rne (\<bar>x\<bar> / ulp x)) * ulp x)"

definition Math_round :: "rat \<Rightarrow> int" where
  "Math_round v = \<lfloor>v + 1 / 2\<rfloor>"

section \<open>HandDetectionOverlay: the detection loop\<close>

subsection \<open>Landmarks, key points and the overlay canvas\<close>

text \<open>
  A prediction's \<open>landmarks\<close> is an array of points \<open>[x, y, z]\<close> relative to the
  offscreen canvas. The overlay canvas is modelled by what has been painted on it since it
  was last cleared. Canvas sizes are non-negative integers.
\<close>

type_synonym landmark = "rat \<times> rat \<times> rat"

datatype keypoint = Keypoint (kx: rat) (ky: rat) (kz: rat)

datatype draw_op =
    Arc rat rat
  | StrokeRect rat rat rat rat
  | FillText string rat rat

text \<open>
  Line 124: \<open>{ x: pt[0] * (canvas.width / off.width), y: pt[1] * (canvas.height / off.height),
  z: pt[2] }\<close>: the quotient is rounded, and then the product. With an offscreen size of
  zero JavaScript yields a non-finite coordinate, which the rationals do not have;
  statements about coordinates take positive sizes.
\<close>

definition to_keypoint :: "nat \<Rightarrow> nat \<Rightarrow> nat \<Rightarrow> nat \<Rightarrow> landmark \<Rightarrow> keypoint" where
  "to_keypoint canvas_width canvas_height off_width off_height pt =
     (case pt of (pt0, pt1, pt2) \<Rightarrow>
        Keypoint (fl (pt0 * fl (of_nat canvas_width / of_nat off_width)))
                 (fl (pt1 * fl (of_nat canvas_height / of_nat off_height)))
                 pt2)"

definition list_min :: "rat list \<Rightarrow> rat" where
  "list_min vs = fold min (tl vs) (hd vs)"

definition list_max :: "rat list \<Rightarrow> rat" where
  "list_max vs = fold max (tl vs) (hd vs)"

text \<open>
  Lines 122 to 150, the body of \<open>predictions.forEach\<close>: a dot per key point, then the
  padded bounding box and the label. For an empty landmark array \<open>Math.min()\<close> is
  \<open>Infinity\<close> and the canvas ignores a call with a non-finite argument, so nothing is
  painted.
\<close>

definition draw_prediction :: "nat \<Rightarrow> nat \<Rightarrow> nat \<Rightarrow> nat \<Rightarrow> landmark list \<Rightarrow> draw_op list" where
  "draw_prediction canvas_width canvas_height off_width off_height landmarks =
     (let keypoints = map (to_keypoint canvas_width canvas_height off_width off_height) landmarks;
          xs = map kx keypoints;
          ys = map ky keypoints;
          padding = 10
      in map (\<lambda>kp. Arc (kx kp) (ky kp)) keypoints @
         (if keypoints = [] then []
          else [StrokeRect (list_min xs - padding) (list_min ys - padding)
                  ((list_max xs - list_min xs) + padding * 2)
                  ((list_max ys - list_min ys) + padding * 2),
                FillText ''Hand'' (max 0 (list_min xs)) (max 16 (list_min ys - 8))]))"

subsection \<open>Scheduler state\<close>

text \<open>
  \<open>isEstimatingRef\<close>, \<open>lastEstimateRef\<close>, the two canvases, and one field that is not
  in the source: \<open>inFlight\<close> counts the \<open>estimateHands\<close> promises that have been
  created and have not settled yet.
\<close>

record scheduler =
  isEstimating :: bool
  lastEstimate :: rat
  canvas_width :: nat
  canvas_height :: nat
  off_width :: nat
  off_height :: nat
  overlay :: "draw_op list"
  inFlight :: nat

datatype action =
    EstimateHands nat nat
  | RequestAnimationFrame
  | ConsoleError string
  | ClearRect

definition targetFps :: rat where
  "targetFps = 10"

definition minInterval :: rat where
  "minInterval = 1000 / targetFps"

definition targetW :: nat where
  "targetW = 320"

text \<open>
  Lines 103 and 104: \<open>aspect = video.videoWidth / video.videoHeight || 4/3\<close> and
  \<open>targetH = Math.round(targetW / aspect)\<close>, two rounded quotients. The first is falsy
  when the width is zero (\<open>0\<close> or \<open>NaN\<close>) and \<open>Infinity\<close> when only the height is
  zero.
\<close>

definition targetH :: "nat \<Rightarrow> nat \<Rightarrow> nat" where
  "targetH videoWidth videoHeight =
     (if videoWidth = 0 then nat (Math_round (fl (of_nat targetW / fl (4 / 3))))
      else if videoHeight = 0 then 0
      else nat (Math_round (fl (of_nat targetW / fl (of_nat videoWidth / of_nat videoHeight)))))"

definition init_scheduler :: "nat \<Rightarrow> nat \<Rightarrow> scheduler" where
  "init_scheduler w h =
     \<lparr>isEstimating = False, lastEstimate = 0, canvas_width = w, canvas_height = h,
      off_width = 300, off_height = 150, overlay = [], inFlight = 0\<rparr>"

subsection \<open>One tick of the loop, up to the await\<close>

text \<open>
  Lines 80 to 114. \<open>readyState\<close> is the video element's ready state (4 when a frame can
  be decoded). A tick that starts an estimation does not reschedule: line 159 runs when the
  awaited call has settled. The canvas calls of lines 105 to 108 and the painting after
  the await are taken not to throw.
\<close>

definition loop_tick :: "rat \<Rightarrow> nat \<Rightarrow> nat \<Rightarrow> nat \<Rightarrow> scheduler \<Rightarrow> scheduler \<times> action list" where
  "loop_tick now readyState videoWidth videoHeight s =
     (if readyState = 4 then
        if now - lastEstimate s < minInterval then (s, [RequestAnimationFrame])
        else if isEstimating s then (s, [RequestAnimationFrame])
        else
          (s\<lparr>isEstimating := True, lastEstimate := now,
             off_width := targetW, off_height := targetH videoWidth videoHeight,
             inFlight := Suc (inFlight s)\<rparr>,
           [EstimateHands targetW (targetH videoWidth videoHeight)])
      else (s, [RequestAnimationFrame]))"

subsection \<open>The rest of the tick, when the estimation has settled\<close>

datatype outcome = Fulfilled "landmark list list" | Rejected string

text \<open>
  Lines 111 to 151, inside the outer \<open>try\<close>: the \<open>finally\<close> releases the flag on both
  ways out; a rejection then leaves the block as an exception (\<open>Inl\<close>) before
  \<open>clearRect\<close> is reached.
\<close>

definition after_await :: "outcome \<Rightarrow> scheduler \<Rightarrow> (string + action list) \<times> scheduler" where
  "after_await r s =
     (let s1 = s\<lparr>isEstimating := False, inFlight := inFlight s - 1\<rparr>
      in case r of
           Rejected err \<Rightarrow> (Inl err, s1)
         | Fulfilled predictions \<Rightarrow>
             (Inr [ClearRect],
              s1\<lparr>overlay :=
                    concat (map (draw_prediction (canvas_width s1) (canvas_height s1)
                                   (off_width s1) (off_height s1)) predictions)\<rparr>))"

text \<open>
  Lines 153 to 159: the outer \<open>catch\<close> logs and resets the flag, and the next tick is
  requested on every way out. The result has no error case: the loop's promise fulfils.
\<close>

definition loop_resume :: "outcome \<Rightarrow> scheduler \<Rightarrow> scheduler \<times> action list" where
  "loop_resume r s =
     (case after_await r s of
        (Inr acts, s1) \<Rightarrow> (s1, acts @ [RequestAnimationFrame])
      | (Inl err, s1) \<Rightarrow>
          (s1\<lparr>isEstimating := False\<rparr>, [ConsoleError err, RequestAnimationFrame]))"

subsection \<open>Tick sequences\<close>

text \<open>
  What can happen to the scheduler: a tick of some loop instance (every call of
  \<open>startDetectionLoop\<close> starts one, and all share the refs), or the settling of a pending
  estimation. A settling with nothing pending cannot happen and leaves the state as it is.
\<close>

datatype event = Tick rat nat nat nat | Settle outcome

fun step :: "scheduler \<Rightarrow> event \<Rightarrow> scheduler" where
  "step s (Tick now readyState videoWidth videoHeight) =
     fst (loop_tick now readyState videoWidth videoHeight s)"
| "step s (Settle r) = (if inFlight s = 0 then s else fst (loop_resume r s))"

definition run :: "scheduler \<Rightarrow> event list \<Rightarrow> scheduler" where
  "run s evs = foldl step s evs"

section \<open>WebcamField: the capture recorder\<close>

subsection \<open>Constants\<close>

definition RECORDING_DURATION :: rat where
  "RECORDING_DURATION = 3000"

definition FRAMES_PER_SECOND :: rat where
  "FRAMES_PER_SECOND = 15"

definition STABILIZATION_DELAY :: rat where
  "STABILIZATION_DELAY = 500"

text \<open>Line 37: \<open>1000 / FRAMES_PER_SECOND\<close>, the number nearest to 200 / 3.\<close>

definition frameInterval :: rat where
  "frameInterval = fl (1000 / FRAMES_PER_SECOND)"

text \<open>Line 71: the period handed to \<open>setInterval\<close>, \<open>Math.floor(frameInterval * 0.8)\<close>.\<close>

definition tick_period :: int where
  "tick_period = \<lfloor>fl (frameInterval * fl 0.8)\<rfloor>"

subsection \<open>One sampling tick\<close>

text \<open>
  \<open>capture()\<close> returns \<open>null\<close> or the screenshot as a data URL; \<open>if (frame)\<close> takes
  \<open>null\<close> and the empty string as false.
\<close>

definition truthy :: "string option \<Rightarrow> bool" where
  "truthy frame = (case frame of None \<Rightarrow> False | Some d \<Rightarrow> d \<noteq> [])"

text \<open>The variables that the interval's callback closes over (lines 34 to 38).\<close>

record session =
  startTime :: rat
  lastFrameTime :: rat
  frames :: "string list"

definition new_session :: "rat \<Rightarrow> session" where
  "new_session now = \<lparr>startTime = now, lastFrameTime = now, frames = []\<rparr>"

text \<open>
  Lines 45 to 48: the two nested conditions under which the tick keeps its frame. The
  difference of the clock readings, the difference to the nominal interval and the
  tolerance \<open>frameInterval * 0.2\<close> are each rounded; \<open>0.2\<close> is itself the number
  nearest to 1 / 5.
\<close>

definition accepts :: "session \<Rightarrow> rat \<Rightarrow> string option \<Rightarrow> bool" where
  "accepts c currentTime frame =
     (truthy frame \<and>
      (let timeSinceLastFrame = fl (currentTime - lastFrameTime c)
       in \<bar>fl (timeSinceLastFrame - frameInterval)\<bar> < fl (frameInterval * fl 0.2)))"

text \<open>Lines 49 and 51: what an accepted frame does to the closure.\<close>

definition collect :: "session \<Rightarrow> rat \<Rightarrow> string option \<Rightarrow> session" where
  "collect c currentTime frame =
     (case frame of
        None \<Rightarrow> c
      | Some d \<Rightarrow>
          if accepts c currentTime frame
          then c\<lparr>frames := frames c @ [d], lastFrameTime := currentTime\<rparr>
          else c)"

text \<open>
  Lines 42 to 59 as a function of the clock reading and the captured frame: the closure
  after the tick, whether a timestamp was pushed (line 50), the value handed to
  \<open>setRecordingProgress\<close> on line 58, and the test of line 59.
\<close>

record tick_result =
  after :: session
  pushed :: bool
  progress :: rat
  finished :: bool

definition sample_tick :: "session \<Rightarrow> rat \<Rightarrow> string option \<Rightarrow> tick_result" where
  "sample_tick c currentTime frame =
     (let elapsed = currentTime - startTime c
      in \<lparr>after = collect c currentTime frame,
          pushed = accepts c currentTime frame,
          progress = min ((elapsed / RECORDING_DURATION) * 100) 100,
          finished = (elapsed \<ge> RECORDING_DURATION)\<rparr>)"

subsection \<open>One recording session\<close>

text \<open>
  A session seen by itself: the callback runs at the given clock readings with the given
  captures until it clears its own timer (line 60); later ticks do not run. \<open>reports\<close>
  lists the arguments of \<open>setRecordingProgress\<close> in order (line 58 on every tick and
  the reset of line 62 on the last one), \<open>captured\<close> is the argument of \<open>onCapture\<close>.
\<close>

record recording =
  closure :: session
  timestamps :: "rat list"
  reports :: "rat list"
  captured :: "string list option"

definition start_recording :: "rat \<Rightarrow> recording" where
  "start_recording now =
     \<lparr>closure = new_session now, timestamps = [], reports = [], captured = None\<rparr>"

fun record_ticks :: "recording \<Rightarrow> (rat \<times> string option) list \<Rightarrow> recording" where
  "record_ticks rec [] = rec"
| "record_ticks rec ((currentTime, frame) # rest) =
     (let out = sample_tick (closure rec) currentTime frame;
          rec1 = rec\<lparr>closure := after out,
                     timestamps := (if pushed out then timestamps rec @ [currentTime]
                                    else timestamps rec),
                     reports := reports rec @ [progress out]\<rparr>
      in if finished out
         then rec1\<lparr>reports := reports rec1 @ [0], captured := Some (frames (after out))\<rparr>
         else record_ticks rec1 rest)"

text \<open>The values of line 58 alone: the reports without the reset that ends a session.\<close>

definition progress_values :: "recording \<Rightarrow> rat list" where
  "progress_values rec =
     (case captured rec of None \<Rightarrow> reports rec | Some fs \<Rightarrow> butlast (reports rec))"

text \<open>A timer that fires every \<open>d\<close> milliseconds after \<open>t0\<close>, \<open>n\<close> times.\<close>

definition steady_clock :: "rat \<Rightarrow> rat \<Rightarrow> (nat \<Rightarrow> string option) \<Rightarrow> nat \<Rightarrow> (rat \<times> string option) list" where
  "steady_clock t0 d shot n = map (\<lambda>k. (t0 + d * of_nat k, shot k)) [1..<Suc n]"

text \<open>A camera that delivers the same screenshot on every tick.\<close>

definition same_shot :: "string \<Rightarrow> nat \<Rightarrow> string option" where
  "same_shot d k = Some d"

subsection \<open>The component: state, timers and handlers\<close>

text \<open>
  The React state (\<open>countdown\<close>, \<open>isCountingDown\<close>, \<open>isRecording\<close>,
  \<open>recordingProgress\<close>), the two refs, and the timers the component has pending: the
  countdown effect's one-second timeout, the stabilization timeouts of \<open>startRecording\<close>
  (their ids are not kept, so they are only counted), and the running intervals, each
  with its id and its closure. \<open>delivered\<close> lists the calls of \<open>onCapture\<close>. Timer ids
  are positive and never reused.
\<close>

record recorder =
  countdown :: int
  isCountingDown :: bool
  isRecording :: bool
  recordingProgress :: rat
  frameCollectorRef :: "nat option"
  frameTimestampsRef :: "rat list"
  countdownTimer :: bool
  stabilizing :: nat
  intervals :: "(nat \<times> session) list"
  nextTimer :: nat
  delivered :: "string list list"

definition mount :: recorder where
  "mount =
     \<lparr>countdown = 0, isCountingDown = False, isRecording = False, recordingProgress = 0,
      frameCollectorRef = None, frameTimestampsRef = [], countdownTimer = False,
      stabilizing = 0, intervals = [], nextTimer = 1, delivered = []\<rparr>"

definition clearInterval :: "nat \<Rightarrow> (nat \<times> session) list \<Rightarrow> (nat \<times> session) list" where
  "clearInterval i ivs = filter (\<lambda>p. fst p \<noteq> i) ivs"

text \<open>Lines 31 to 76: \<open>startRecording\<close> arms the stabilization timeout and sets the flag.\<close>

definition startRecording :: "recorder \<Rightarrow> recorder" where
  "startRecording r = r\<lparr>stabilizing := Suc (stabilizing r), isRecording := True\<rparr>"

text \<open>
  Lines 96 to 107: the countdown effect. A run is preceded by the clean-up of the
  previous run, which clears the pending timeout. In the branch that starts the recording
  the effect runs once more for its own \<open>setIsCountingDown(false)\<close> and does nothing.
\<close>

definition countdown_effect :: "recorder \<Rightarrow> recorder" where
  "countdown_effect r =
     (if isCountingDown r \<and> countdown r > 0 then r\<lparr>countdownTimer := True\<rparr>
      else if isCountingDown r \<and> countdown r = 0
        then (startRecording r)\<lparr>isCountingDown := False, countdownTimer := False\<rparr>
      else r\<lparr>countdownTimer := False\<rparr>)"

text \<open>React runs the effect after a handler only when a dependency has changed.\<close>

definition commit :: "recorder \<Rightarrow> recorder \<Rightarrow> recorder" where
  "commit before r =
     (if countdown r = countdown before \<and> isCountingDown r = isCountingDown before then r
      else countdown_effect r)"

text \<open>Lines 79 to 82.\<close>

definition handleTry :: "recorder \<Rightarrow> recorder" where
  "handleTry r = commit r (r\<lparr>isCountingDown := True, countdown := 5\<rparr>)"

text \<open>Lines 85 to 93.\<close>

definition handleCancel :: "recorder \<Rightarrow> recorder" where
  "handleCancel r =
     commit r
       (let r1 = r\<lparr>isCountingDown := False, countdown := 0\<rparr>
        in case frameCollectorRef r1 of
             None \<Rightarrow> r1
           | Some i \<Rightarrow>
               r1\<lparr>intervals := clearInterval i (intervals r1),
                  isRecording := False, recordingProgress := 0\<rparr>)"

text \<open>Lines 99 to 101: the countdown timeout fires.\<close>

definition countdown_fire :: "recorder \<Rightarrow> recorder" where
  "countdown_fire r =
     commit r (r\<lparr>countdown := countdown r - 1, countdownTimer := False\<rparr>)"

text \<open>Lines 33 to 41: a stabilization timeout fires at clock reading \<open>now\<close>.\<close>

definition stabilize_fire :: "rat \<Rightarrow> recorder \<Rightarrow> recorder" where
  "stabilize_fire now r =
     r\<lparr>stabilizing := stabilizing r - 1,
       frameTimestampsRef := [],
       frameCollectorRef := Some (nextTimer r),
       intervals := intervals r @ [(nextTimer r, new_session now)],
       nextTimer := Suc (nextTimer r)\<rparr>"

text \<open>
  Lines 41 to 71: the interval with id \<open>i\<close> fires. Line 60 clears the timer that the ref
  holds at that moment.
\<close>

definition interval_fire :: "nat \<Rightarrow> rat \<Rightarrow> string option \<Rightarrow> recorder \<Rightarrow> recorder" where
  "interval_fire i currentTime frame r =
     (case map_of (intervals r) i of
        None \<Rightarrow> r
      | Some c \<Rightarrow>
          let out = sample_tick c currentTime frame;
              r1 = r\<lparr>intervals := map (\<lambda>p. if fst p = i then (i, after out) else p) (intervals r),
                     frameTimestampsRef := (if pushed out then frameTimestampsRef r @ [currentTime]
                                            else frameTimestampsRef r),
                     recordingProgress := progress out\<rparr>
          in if finished out
             then r1\<lparr>intervals := (case frameCollectorRef r1 of
                                       None \<Rightarrow> intervals r1
                                     | Some j \<Rightarrow> clearInterval j (intervals r1)),
                     isRecording := False, recordingProgress := 0,
                     delivered := delivered r1 @ [frames (after out)]\<rparr>
             else r1)"

subsection \<open>What can happen to the component\<close>

text \<open>
  The Try button is disabled while counting down or recording (line 138) and the Cancel
  button is rendered only then (line 142); a timer fires only while it is pending.
\<close>

datatype ui_event =
    Try
  | Cancel
  | CountdownFire
  | StabilizeFire rat
  | IntervalFire nat rat "string option"

fun react :: "recorder \<Rightarrow> ui_event \<Rightarrow> recorder" where
  "react r Try = (if isCountingDown r \<or> isRecording r then r else handleTry r)"
| "react r Cancel = (if isCountingDown r \<or> isRecording r then handleCancel r else r)"
| "react r CountdownFire = (if countdownTimer r then countdown_fire r else r)"
| "react r (StabilizeFire now) = (if 0 < stabilizing r then stabilize_fire now r else r)"
| "react r (IntervalFire i currentTime frame) = interval_fire i currentTime frame r"

definition reacts :: "recorder \<Rightarrow> ui_event list \<Rightarrow> recorder" where
  "reacts r evs = foldl react r evs"

text \<open>The phases of the recorder, read off the state and the pending timers.\<close>

definition idle :: "recorder \<Rightarrow> bool" where
  "idle r \<longleftrightarrow>
     \<not> isCountingDown r \<and> \<not> isRecording r \<and> countdown r = 0 \<and> recordingProgress r = 0 \<and>
     \<not> countdownTimer r \<and> stabilizing r = 0 \<and> intervals r = []"

definition counting_down :: "recorder \<Rightarrow> bool" where
  "counting_down r \<longleftrightarrow>
     isCountingDown r \<and> 0 < countdown r \<and> countdownTimer r \<and> \<not> isRecording r \<and>
     recordingProgress r = 0 \<and> stabilizing r = 0 \<and> intervals r = []"

definition stabilizing_phase :: "recorder \<Rightarrow> bool" where
  "stabilizing_phase r \<longleftrightarrow>
     \<not> isCountingDown r \<and> countdown r = 0 \<and> \<not> countdownTimer r \<and> isRecording r \<and>
     stabilizing r = 1 \<and> intervals r = []"

definition recording_phase :: "recorder \<Rightarrow> bool" where
  "recording_phase r \<longleftrightarrow>
     \<not> isCountingDown r \<and> countdown r = 0 \<and> \<not> countdownTimer r \<and> isRecording r \<and>
     stabilizing r = 0 \<and>
     (case frameCollectorRef r of
        None \<Rightarrow> False
      | Some i \<Rightarrow> map fst (intervals r) = [i])"

section \<open>Properties of rounding\<close>

subsection \<open>Rounding to an integer\<close>

lemma rne_of_int [simp]: "rne (of_int k) = k"
  by (simp add: rne_def)

lemma rne_numeral [simp]: "rne (numeral n) = numeral n"
  using rne_of_int [of "numeral n"] by simp

lemma rne_between: "\<lfloor>q\<rfloor> \<le> rne q \<and> rne q \<le> \<lfloor>q\<rfloor> + 1"
  by (simp add: rne_def Let_def)

lemma rne_error: "\<bar>of_int (rne q) - q\<bar> \<le> 1 / 2"
proof -
  have "of_int \<lfloor>q\<rfloor> \<le> q" "q < of_int \<lfloor>q\<rfloor> + 1" by linarith+
  then show ?thesis by (auto simp: rne_def Let_def)
qed

lemma rne_mono:
  assumes "p \<le> q"
  shows "rne p \<le> rne q"
proof (cases "\<lfloor>p\<rfloor> = \<lfloor>q\<rfloor>")
  case True
  then show ?thesis using assms by (auto simp: rne_def Let_def)
next
  case False
  then have "\<lfloor>p\<rfloor> < \<lfloor>q\<rfloor>" using floor_mono [OF assms] by simp
  then show ?thesis using rne_between [of p] rne_between [of q] by linarith
qed

subsection \<open>The exponent\<close>

lemma binade_bounds:
  assumes "x \<noteq> 0"
  shows "2 powi binade x \<le> \<bar>x\<bar> \<and> \<bar>x\<bar> < 2 powi (binade x + 1)"
proof (cases "1 \<le> \<bar>x\<bar>")
  case True
  let ?n = "\<lfloor>\<bar>x\<bar>\<rfloor>"
  have n: "0 < ?n" using True by simp
  have b1: "1 \<le> bitlen ?n" using n by (simp add: bitlen_ge_iff_power)
  from bitlen_bounds [OF n] have lo: "2 ^ nat (bitlen ?n - 1) \<le> ?n" and hi: "?n < 2 ^ nat (bitlen ?n)"
    by simp_all
  have "rat_of_int (2 ^ nat (bitlen ?n - 1)) \<le> of_int ?n" using lo by (simp only: of_int_le_iff)
  also have "\<dots> \<le> \<bar>x\<bar>" by simp
  finally have low: "2 ^ nat (bitlen ?n - 1) \<le> \<bar>x\<bar>" by simp
  have "?n + 1 \<le> 2 ^ nat (bitlen ?n)" using hi by simp
  then have "rat_of_int (?n + 1) \<le> of_int (2 ^ nat (bitlen ?n))" by (simp only: of_int_le_iff)
  moreover have "\<bar>x\<bar> < of_int (?n + 1)" by linarith
  ultimately have high: "\<bar>x\<bar> < 2 ^ nat (bitlen ?n)" by simp
  have e: "binade x = bitlen ?n - 1" using True by (simp add: binade_def)
  have p1: "(2::rat) powi (bitlen ?n - 1) = 2 ^ nat (bitlen ?n - 1)"
    using b1 by (simp add: power_int_def)
  have p2: "(2::rat) powi (bitlen ?n - 1 + 1) = 2 ^ nat (bitlen ?n)"
    using b1 by (simp add: power_int_def)
  show ?thesis unfolding e p1 p2 using low high by simp
next
  case False
  then have small: "\<bar>x\<bar> < 1" by simp
  have pos: "0 < \<bar>x\<bar>" using assms by simp
  let ?y = "1 / \<bar>x\<bar>"
  let ?m = "\<lceil>?y\<rceil> - 1"
  have y1: "1 < ?y" using small pos by simp
  then have "2 \<le> \<lceil>?y\<rceil>" by (simp add: le_ceiling_iff)
  then have m: "0 < ?m" by simp
  have k1: "1 \<le> bitlen ?m" using m by (simp add: bitlen_ge_iff_power)
  from bitlen_bounds [OF m] have lo: "2 ^ nat (bitlen ?m - 1) \<le> ?m" and hi: "?m < 2 ^ nat (bitlen ?m)"
    by simp_all
  have my: "of_int ?m < ?y" by linarith
  have "rat_of_int (2 ^ nat (bitlen ?m - 1)) \<le> of_int ?m" using lo by (simp only: of_int_le_iff)
  then have ylow: "2 ^ nat (bitlen ?m - 1) < ?y" using my by simp
  have "\<lceil>?y\<rceil> \<le> 2 ^ nat (bitlen ?m)" using hi by simp
  then have "rat_of_int \<lceil>?y\<rceil> \<le> of_int (2 ^ nat (bitlen ?m))" by (simp only: of_int_le_iff)
  then have "rat_of_int \<lceil>?y\<rceil> \<le> 2 ^ nat (bitlen ?m)" by simp
  then have yhigh: "?y \<le> 2 ^ nat (bitlen ?m)"
    by (rule order_trans [OF le_of_int_ceiling])
  have e: "binade x = - bitlen ?m" using False by (simp add: binade_def)
  have p1: "(2::rat) powi (- bitlen ?m) = 1 / 2 ^ nat (bitlen ?m)"
    using k1 by (simp add: power_int_def field_simps)
  have p2: "(2::rat) powi (- bitlen ?m + 1) = 1 / 2 ^ nat (bitlen ?m - 1)"
    using k1 by (cases "bitlen ?m = 1") (simp_all add: power_int_def field_simps nat_diff_distrib)
  have low: "1 / 2 ^ nat (bitlen ?m) \<le> \<bar>x\<bar>"
    using yhigh pos by (simp add: field_simps)
  have high: "\<bar>x\<bar> < 1 / 2 ^ nat (bitlen ?m - 1)"
    using ylow pos by (simp add: field_simps)
  show ?thesis unfolding e p1 p2 using low high by simp
qed


lemma binade_unique:
  assumes "0 < x" and "2 powi e \<le> x" and "x < 2 powi (e + 1)"
  shows "binade x = e"
proof -
  have x: "x \<noteq> 0" "\<bar>x\<bar> = x" using assms(1) by simp_all
  from binade_bounds [OF x(1)] have lo: "2 powi binade x \<le> x" and hi: "x < 2 powi (binade x + 1)"
    unfolding x by simp_all
  have "\<not> binade x < e"
  proof
    assume "binade x < e"
    then have "(2::rat) powi (binade x + 1) \<le> 2 powi e" by (intro power_int_increasing) simp_all
    then show False using hi assms(2) by linarith
  qed
  moreover have "\<not> e < binade x"
  proof
    assume "e < binade x"
    then have "(2::rat) powi (e + 1) \<le> 2 powi binade x" by (intro power_int_increasing) simp_all
    then show False using lo assms(3) by linarith
  qed
  ultimately show ?thesis by simp
qed

subsection \<open>Rounding to 53 bits: range, monotonicity and error\<close>

lemma fl_0 [simp]: "fl 0 = 0"
  by (simp add: fl_def)

lemma binade_minus [simp]: "binade (- x) = binade x"
  by (simp add: binade_def)

lemma fl_minus: "fl (- x) = - fl x"
  by (simp add: fl_def ulp_def sgn_minus)

lemma fl_pos:
  assumes "0 < x" and "2 powi e \<le> x" and "x < 2 powi (e + 1)"
  shows "fl x = of_int (rne (x / 2 powi (e - 52))) * 2 powi (e - 52)"
  using assms(1) binade_unique [OF assms] by (simp add: fl_def ulp_def)

lemma scaled_binade:
  fixes x :: rat
  assumes "2 powi e \<le> x" and "x < 2 powi (e + 1)"
  shows "2 ^ 52 \<le> x / 2 powi (e - 52)" and "x / 2 powi (e - 52) < 2 ^ 53"
proof -
  have u: "(0::rat) < 2 powi (e - 52)" by simp
  have a: "(2::rat) ^ 52 * 2 powi (e - 52) = 2 powi e"
    using power_int_add [of "2::rat" 52 "e - 52"] by simp
  have b: "(2::rat) ^ 53 * 2 powi (e - 52) = 2 powi (e + 1)"
    using power_int_add [of "2::rat" 53 "e - 52"] by (simp add: add.commute)
  have "2 ^ 52 * 2 powi (e - 52) \<le> x" using assms(1) unfolding a .
  then show "2 ^ 52 \<le> x / 2 powi (e - 52)"
    by (simp only: pos_le_divide_eq [OF u])
  have "x < 2 ^ 53 * 2 powi (e - 52)" using assms(2) unfolding b .
  then show "x / 2 powi (e - 52) < 2 ^ 53"
    by (simp only: pos_divide_less_eq [OF u])
qed

lemma fl_range:
  assumes "0 < x" and "2 powi e \<le> x" and "x < 2 powi (e + 1)"
  shows "2 powi e \<le> fl x \<and> fl x \<le> 2 powi (e + 1)"
proof -
  let ?u = "(2::rat) powi (e - 52)"
  let ?q = "x / ?u"
  have u: "0 < ?u" by simp
  from scaled_binade [OF assms(2,3)] have q: "2 ^ 52 \<le> ?q" "?q < 2 ^ 53" .
  have "rne (of_int (2 ^ 52)) \<le> rne ?q" by (rule rne_mono) (use q in simp)
  then have lo: "2 ^ 52 \<le> rne ?q" by simp
  have "rne ?q \<le> rne (of_int (2 ^ 53))" by (rule rne_mono) (use q in simp)
  then have hi: "rne ?q \<le> 2 ^ 53" by simp
  have a: "(2::rat) ^ 52 * ?u = 2 powi e"
    using power_int_add [of "2::rat" 52 "e - 52"] by simp
  have b: "(2::rat) ^ 53 * ?u = 2 powi (e + 1)"
    using power_int_add [of "2::rat" 53 "e - 52"] by (simp add: add.commute)
  have "rat_of_int (2 ^ 52) \<le> of_int (rne ?q)" using lo by (simp only: of_int_le_iff)
  then have "2 ^ 52 * ?u \<le> of_int (rne ?q) * ?u" using u by simp
  moreover have "rat_of_int (rne ?q) \<le> of_int (2 ^ 53)" using hi by (simp only: of_int_le_iff)
  then have "of_int (rne ?q) * ?u \<le> 2 ^ 53 * ?u" using u by simp
  ultimately show ?thesis unfolding fl_pos [OF assms] a b by simp
qed

lemma fl_pos_pos: "0 < x \<Longrightarrow> 0 < fl x"
proof -
  assume x: "0 < x"
  then have n: "x \<noteq> 0" "\<bar>x\<bar> = x" by simp_all
  from binade_bounds [OF n(1)] have "2 powi binade x \<le> x" "x < 2 powi (binade x + 1)"
    unfolding n by simp_all
  from fl_range [OF x this] have "2 powi binade x \<le> fl x" by simp
  moreover have "(0::rat) < 2 powi binade x" by simp
  ultimately show "0 < fl x" by linarith
qed

lemma fl_mono_pos:
  assumes "0 < x" and "x \<le> y"
  shows "fl x \<le> fl y"
proof -
  have y: "0 < y" using assms by simp
  have nx: "x \<noteq> 0" "\<bar>x\<bar> = x" and ny: "y \<noteq> 0" "\<bar>y\<bar> = y" using assms y by simp_all
  from binade_bounds [OF nx(1)] have bx: "2 powi binade x \<le> x" "x < 2 powi (binade x + 1)"
    unfolding nx by simp_all
  from binade_bounds [OF ny(1)] have hy: "2 powi binade y \<le> y" "y < 2 powi (binade y + 1)"
    unfolding ny by simp_all
  have le: "binade x \<le> binade y"
  proof (rule ccontr)
    assume "\<not> binade x \<le> binade y"
    then have "(2::rat) powi (binade y + 1) \<le> 2 powi binade x"
      by (intro power_int_increasing) simp_all
    then show False using bx(1) hy(2) assms(2) by linarith
  qed
  show ?thesis
  proof (cases "binade x = binade y")
    case True
    let ?u = "(2::rat) powi (binade y - 52)"
    have u: "0 < ?u" by simp
    have "x / ?u \<le> y / ?u" using assms(2) u by (simp add: divide_right_mono)
    then have "rne (x / ?u) \<le> rne (y / ?u)" by (rule rne_mono)
    then have "rat_of_int (rne (x / ?u)) \<le> of_int (rne (y / ?u))" by (simp only: of_int_le_iff)
    then have "of_int (rne (x / ?u)) * ?u \<le> of_int (rne (y / ?u)) * ?u" using u by simp
    then show ?thesis
      using fl_pos [OF assms(1) bx] fl_pos [OF y hy] True by simp
  next
    case False
    then have "binade x + 1 \<le> binade y" using le by simp
    then have "(2::rat) powi (binade x + 1) \<le> 2 powi binade y"
      by (intro power_int_increasing) simp_all
    then show ?thesis using fl_range [OF assms(1) bx] fl_range [OF y hy] by linarith
  qed
qed

lemma fl_mono:
  assumes "x \<le> y"
  shows "fl x \<le> fl y"
proof -
  consider "0 < x" | "x \<le> 0" "0 \<le> y" | "y < 0" using assms by linarith
  then show ?thesis
  proof cases
    case 1
    then show ?thesis using assms by (rule fl_mono_pos)
  next
    case 2
    have "fl x \<le> 0"
    proof (cases "x = 0")
      case True then show ?thesis by simp
    next
      case False
      then have "0 < - x" using 2 by simp
      then have "0 < fl (- x)" by (rule fl_pos_pos)
      then show ?thesis by (simp add: fl_minus)
    qed
    moreover have "0 \<le> fl y"
    proof (cases "y = 0")
      case True then show ?thesis by simp
    next
      case False
      then have "0 < y" using 2 by simp
      then show ?thesis using fl_pos_pos [of y] by simp
    qed
    ultimately show ?thesis by linarith
  next
    case 3
    then have "0 < - y" "- y \<le> - x" using assms by simp_all
    then have "fl (- y) \<le> fl (- x)" by (rule fl_mono_pos)
    then show ?thesis by (simp add: fl_minus)
  qed
qed

lemma fl_error_pos:
  assumes "0 < x"
  shows "\<bar>fl x - x\<bar> \<le> x / 2 ^ 53"
proof -
  have nx: "x \<noteq> 0" "\<bar>x\<bar> = x" using assms by simp_all
  let ?e = "binade x"
  let ?u = "(2::rat) powi (?e - 52)"
  from binade_bounds [OF nx(1)] have bx: "2 powi ?e \<le> x" "x < 2 powi (?e + 1)"
    unfolding nx by simp_all
  have u: "0 < ?u" by simp
  have "fl x - x = (of_int (rne (x / ?u)) - x / ?u) * ?u"
    unfolding fl_pos [OF assms bx] using u by (simp add: algebra_simps)
  then have "\<bar>fl x - x\<bar> = \<bar>of_int (rne (x / ?u)) - x / ?u\<bar> * ?u"
    using u by (simp add: abs_mult)
  also have "\<dots> \<le> 1 / 2 * ?u" using rne_error [of "x / ?u"] u by (intro mult_right_mono) simp_all
  also have "\<dots> = 2 powi ?e / 2 ^ 53"
    using power_int_add [of "2::rat" 52 "?e - 52"] by simp
  also have "\<dots> \<le> x / 2 ^ 53" using bx(1) by (simp add: divide_right_mono)
  finally show ?thesis .
qed

lemma fl_error: "\<bar>fl x - x\<bar> \<le> \<bar>x\<bar> / 2 ^ 53"
proof -
  consider "0 < x" | "x = 0" | "x < 0" by linarith
  then show ?thesis
  proof cases
    case 1
    then show ?thesis using fl_error_pos [of x] by simp
  next
    case 2
    then show ?thesis by simp
  next
    case 3
    then have "0 < - x" by simp
    from fl_error_pos [OF this] show ?thesis using 3 by (simp add: fl_minus)
  qed
qed

subsection \<open>Evaluating a rounding\<close>

lemma floor_numeral_quotient:
  "\<lfloor>numeral a / numeral b :: rat\<rfloor> = numeral a div numeral b"
  using floor_divide_of_int_eq [of "numeral a" "numeral b", where ?'a = rat] by simp

lemma fl_eval:
  assumes "0 < x" and "2 ^ 52 \<le> x * 2 powi k" and "x * 2 powi k < 2 ^ 53"
  shows "fl x = of_int (rne (x * 2 powi k)) / 2 powi k"
proof -
  have u: "(0::rat) < 2 powi k" by simp
  have inv: "(2::rat) powi (52 - k - 52) = 1 / 2 powi k"
    by (simp add: power_int_minus field_simps)
  have a: "(2::rat) powi (52 - k) = 2 ^ 52 / 2 powi k"
    using power_int_diff [of "2::rat" 52 k] by simp
  have b: "(2::rat) powi (52 - k + 1) = 2 ^ 53 / 2 powi k"
    using power_int_diff [of "2::rat" 53 k] by (simp add: algebra_simps)
  have lo: "2 powi (52 - k) \<le> x"
    unfolding a using assms(2) u by (simp add: pos_divide_le_eq)
  have hi: "x < 2 powi (52 - k + 1)"
    unfolding b using assms(3) u by (simp add: pos_less_divide_eq)
  show ?thesis unfolding fl_pos [OF assms(1) lo hi] inv by simp
qed

subsection \<open>Integers up to \<open>2^53\<close> are representable\<close>

lemma fl_of_int_pos:
  assumes "0 < n" and "n \<le> 2 ^ 53"
  shows "fl (of_int n) = of_int n"
proof -
  let ?x = "rat_of_int n"
  have x: "0 < ?x" "?x \<noteq> 0" "\<bar>?x\<bar> = ?x" using assms(1) by simp_all
  let ?e = "binade ?x"
  from binade_bounds [OF x(2)] have lo: "2 powi ?e \<le> ?x" and hi: "?x < 2 powi (?e + 1)"
    unfolding x(3) by simp_all
  have one: "1 \<le> ?x" using assms(1) by simp
  have top: "?x \<le> 2 ^ 53" using assms(2) by (metis of_int_le_iff of_int_numeral of_int_power)
  have e0: "0 \<le> ?e"
  proof (rule ccontr)
    assume "\<not> 0 \<le> ?e"
    then have "(2::rat) powi (?e + 1) \<le> 2 powi 0" by (intro power_int_increasing) simp_all
    then show False using hi one by simp
  qed
  have e53: "?e \<le> 53"
  proof (rule ccontr)
    assume "\<not> ?e \<le> 53"
    then have "(2::rat) powi 54 \<le> 2 powi ?e" by (intro power_int_increasing) simp_all
    then show False using lo top by simp
  qed
  show ?thesis
  proof (cases "?e \<le> 52")
    case True
    have p: "(2::rat) powi (?e - 52) = 1 / 2 ^ nat (52 - ?e)"
      using True power_int_minus [of "2::rat" "52 - ?e"] by (simp add: power_int_def field_simps)
    have "?x / 2 powi (?e - 52) = of_int (n * 2 ^ nat (52 - ?e))"
      unfolding p by simp
    then have "rne (?x / 2 powi (?e - 52)) = n * 2 ^ nat (52 - ?e)"
      by (simp only: rne_of_int)
    then show ?thesis unfolding fl_pos [OF x(1) lo hi] p by simp
  next
    case False
    then have e: "?e = 53" using e53 by simp
    have "?x = 2 ^ 53" using lo top unfolding e by simp
    then show ?thesis
      by (simp only:) (subst fl_eval [where k = "-1"], simp_all add: power_int_minus)
  qed
qed

lemma fl_of_int:
  assumes "\<bar>n\<bar> \<le> 2 ^ 53"
  shows "fl (of_int n) = of_int n"
proof -
  consider "0 < n" | "n = 0" | "n < 0" by linarith
  then show ?thesis
  proof cases
    case 1
    then show ?thesis using assms by (intro fl_of_int_pos) simp_all
  next
    case 2
    then show ?thesis by simp
  next
    case 3
    then have "fl (of_int (- n)) = of_int (- n)" using assms by (intro fl_of_int_pos) simp_all
    then show ?thesis by (simp add: fl_minus)
  qed
qed

lemma fl_numeral [simp]:
  "numeral n \<le> (2::int) ^ 53 \<Longrightarrow> fl (numeral n) = numeral n"
  using fl_of_int [of "numeral n"] by simp

lemma fl_1 [simp]: "fl 1 = 1"
  using fl_of_int [of 1] by simp

lemmas rne_eval = rne_def Let_def floor_numeral_quotient

section \<open>Properties of the detection loop\<close>

subsection \<open>Evaluation helpers\<close>

lemma fl_four_thirds: "fl (4 / 3) = 6004799503160661 / 4503599627370496"
  by (subst fl_eval [where k = 52]) (simp_all add: rne_eval)

lemma targetH_640_480: "targetH 640 480 = 240"
proof -
  have r: "fl (320 / fl (4 / 3)) = 240"
    unfolding fl_four_thirds
    by (subst fl_eval [where k = 45]) (simp_all add: rne_eval)
  have "targetH 640 480 = nat (Math_round (fl (320 / fl (4 / 3))))"
    by (simp add: targetH_def targetW_def)
  also have "\<dots> = 240"
    unfolding r Math_round_def by (simp add: floor_numeral_quotient)
  finally show ?thesis .
qed

text \<open>A 128 by 91 video: the two rounded quotients give 227, the exact quotient 227.5.\<close>

lemma targetH_128_91: "targetH 128 91 = 227"
proof -
  have a: "fl (128 / 91) = 6334733541795863 / 4503599627370496"
    by (subst fl_eval [where k = 52]) (simp_all add: rne_eval)
  have r: "fl (320 / fl (128 / 91)) = 8004444650209279 / 35184372088832"
    unfolding a by (subst fl_eval [where k = 45]) (simp_all add: rne_eval)
  have "targetH 128 91 = nat (Math_round (fl (320 / fl (128 / 91))))"
    by (simp add: targetH_def targetW_def)
  also have "\<dots> = 227"
    unfolding r Math_round_def by (simp add: floor_numeral_quotient)
  finally show ?thesis .
qed

lemma minInterval_value: "minInterval = 100"
  by (simp add: minInterval_def targetFps_def)

lemmas detection_defs =
  run_def init_scheduler_def loop_tick_def loop_resume_def after_await_def minInterval_value
  targetW_def draw_prediction_def to_keypoint_def list_min_def list_max_def Let_def

subsection \<open>The flag counts the pending estimations\<close>

lemma loop_tick_flag_count:
  assumes "inFlight s = (if isEstimating s then 1 else 0)"
  shows "inFlight (fst (loop_tick now rs vw vh s)) =
           (if isEstimating (fst (loop_tick now rs vw vh s)) then 1 else 0)"
  using assms by (simp add: loop_tick_def)

lemma loop_resume_flag_count:
  assumes "inFlight s = (if isEstimating s then 1 else 0)"
  shows "inFlight (fst (loop_resume r s)) =
           (if isEstimating (fst (loop_resume r s)) then 1 else 0)"
  using assms by (cases r) (simp_all add: loop_resume_def after_await_def Let_def)

lemma step_flag_count:
  assumes "inFlight s = (if isEstimating s then 1 else 0)"
  shows "inFlight (step s ev) = (if isEstimating (step s ev) then 1 else 0)"
proof (cases ev)
  case (Tick now rs vw vh)
  then show ?thesis using loop_tick_flag_count [OF assms] by simp
next
  case (Settle r)
  then show ?thesis using loop_resume_flag_count [OF assms] assms by simp
qed

lemma run_flag_count:
  assumes "inFlight s = (if isEstimating s then 1 else 0)"
  shows "inFlight (run s evs) = (if isEstimating (run s evs) then 1 else 0)"
  using assms unfolding run_def
proof (induction evs arbitrary: s)
  case Nil
  then show ?case by simp
next
  case (Cons ev evs)
  show ?case using Cons.IH [OF step_flag_count [OF Cons.prems]] by simp
qed

lemma reachable_flag_count:
  "inFlight (run (init_scheduler w h) evs) =
     (if isEstimating (run (init_scheduler w h) evs) then 1 else 0)"
  by (rule run_flag_count) (simp add: init_scheduler_def)

text \<open>
  Claim C1. After any sequence of ticks and settlements, at most one estimation call is
  pending. A tick calls the estimator only in a state where the flag is down and nothing
  is pending, and leaves the flag up with exactly that one call pending; while a call is
  pending no tick calls the estimator; and when the call settles, either way, the flag is
  down again and nothing is pending.
\<close>

theorem at_most_one_estimation_in_flight:
  assumes "s = run (init_scheduler w h) evs"
  shows "inFlight s \<le> 1 \<and>
     (EstimateHands a b \<in> set (snd (loop_tick now rs vw vh s)) \<longrightarrow>
        \<not> isEstimating s \<and> inFlight s = 0 \<and>
        isEstimating (fst (loop_tick now rs vw vh s)) \<and>
        inFlight (fst (loop_tick now rs vw vh s)) = 1) \<and>
     (0 < inFlight s \<longrightarrow>
        EstimateHands a b \<notin> set (snd (loop_tick now rs vw vh s)) \<and>
        \<not> isEstimating (fst (loop_resume r s)) \<and> inFlight (fst (loop_resume r s)) = 0)"
proof -
  have inv: "inFlight s = (if isEstimating s then 1 else 0)"
    unfolding assms by (rule reachable_flag_count)
  have one: "inFlight s \<le> 1" using inv by simp
  have call: "EstimateHands a b \<in> set (snd (loop_tick now rs vw vh s)) \<longrightarrow>
        \<not> isEstimating s \<and> inFlight s = 0 \<and>
        isEstimating (fst (loop_tick now rs vw vh s)) \<and>
        inFlight (fst (loop_tick now rs vw vh s)) = 1"
    using inv by (auto simp: loop_tick_def split: if_splits)
  have busy: "0 < inFlight s \<longrightarrow> EstimateHands a b \<notin> set (snd (loop_tick now rs vw vh s))"
    using inv by (auto simp: loop_tick_def split: if_splits)
  have settle: "0 < inFlight s \<longrightarrow>
        \<not> isEstimating (fst (loop_resume r s)) \<and> inFlight (fst (loop_resume r s)) = 0"
    using inv by (cases r) (auto simp: loop_resume_def after_await_def Let_def split: if_splits)
  show ?thesis using one call busy settle by blast
qed

theorem at_most_one_estimation_in_flight_witness:
  "EstimateHands 320 240 \<in> set (snd (loop_tick 100 4 640 480 (run (init_scheduler 640 480) []))) \<and>
   \<not> isEstimating (run (init_scheduler 640 480) []) \<and>
   isEstimating (fst (loop_tick 100 4 640 480 (run (init_scheduler 640 480) []))) \<and>
   inFlight (run (init_scheduler 640 480) [Tick 100 4 640 480]) = 1 \<and>
   EstimateHands 320 240 \<notin>
     set (snd (loop_tick 250 4 640 480 (run (init_scheduler 640 480) [Tick 100 4 640 480]))) \<and>
   \<not> isEstimating (fst (loop_resume (Rejected ''model error'')
        (run (init_scheduler 640 480) [Tick 100 4 640 480])))"
  using
    at_most_one_estimation_in_flight [of "run (init_scheduler 640 480) []" 640 480 "[]"
      320 240 100 4 640 480 "Rejected ''model error''"]
    at_most_one_estimation_in_flight [of "run (init_scheduler 640 480) [Tick 100 4 640 480]"
      640 480 "[Tick 100 4 640 480]" 320 240 250 4 640 480 "Rejected ''model error''"]
  by (simp add: detection_defs targetH_640_480)

subsection \<open>Remapping landmarks to the display\<close>

lemma overlay_fulfilled:
  "overlay (fst (loop_resume (Fulfilled predictions) s)) =
     concat (map (draw_prediction (canvas_width s) (canvas_height s)
                    (off_width s) (off_height s)) predictions)"
  by (simp add: loop_resume_def after_await_def Let_def)

lemma arc_drawn:
  assumes "lm \<in> set landmarks"
  shows "Arc (kx (to_keypoint dw dh ww wh lm)) (ky (to_keypoint dw dh ww wh lm))
           \<in> set (draw_prediction dw dh ww wh landmarks)"
  using assms by (auto simp: draw_prediction_def Let_def)

lemma fl_product_error: "\<bar>fl (a * fl s) - a * s\<bar> \<le> \<bar>a * s\<bar> / 2 ^ 51"
proof -
  have e1: "\<bar>fl s - s\<bar> \<le> \<bar>s\<bar> / 2 ^ 53" by (rule fl_error)
  have e2: "\<bar>fl (a * fl s) - a * fl s\<bar> \<le> \<bar>a * fl s\<bar> / 2 ^ 53" by (rule fl_error)
  have "\<bar>fl s\<bar> \<le> \<bar>s\<bar> + \<bar>fl s - s\<bar>" by linarith
  also have "\<dots> \<le> \<bar>s\<bar> + \<bar>s\<bar> / 2 ^ 53" using e1 by simp
  also have "\<dots> \<le> 2 * \<bar>s\<bar>" by simp
  finally have s2: "\<bar>fl s\<bar> \<le> 2 * \<bar>s\<bar>" .
  have "\<bar>a * fl s\<bar> = \<bar>a\<bar> * \<bar>fl s\<bar>" by (rule abs_mult)
  also have "\<dots> \<le> \<bar>a\<bar> * (2 * \<bar>s\<bar>)" using s2 by (intro mult_left_mono) simp_all
  finally have p: "\<bar>a * fl s\<bar> \<le> 2 * \<bar>a * s\<bar>" by (simp add: abs_mult)
  have "\<bar>a * fl s - a * s\<bar> = \<bar>a\<bar> * \<bar>fl s - s\<bar>"
    by (simp add: abs_mult [symmetric] right_diff_distrib)
  also have "\<dots> \<le> \<bar>a\<bar> * (\<bar>s\<bar> / 2 ^ 53)" using e1 by (intro mult_left_mono) simp_all
  finally have q: "\<bar>a * fl s - a * s\<bar> \<le> \<bar>a * s\<bar> / 2 ^ 53" by (simp add: abs_mult)
  have "\<bar>fl (a * fl s) - a * s\<bar> \<le> \<bar>fl (a * fl s) - a * fl s\<bar> + \<bar>a * fl s - a * s\<bar>"
    by linarith
  also have "\<dots> \<le> 2 * \<bar>a * s\<bar> / 2 ^ 53 + \<bar>a * s\<bar> / 2 ^ 53"
    using e2 p q by (simp add: field_simps)
  also have "\<dots> \<le> \<bar>a * s\<bar> / 2 ^ 51" by simp
  finally show ?thesis .
qed

text \<open>A scale that is a power of two, and one that is not, where the product is exact.\<close>

lemma keypoint_640_480_320_200:
  "to_keypoint 640 480 320 200 (100, 50, 7) = Keypoint 200 120 7"
proof -
  have a: "fl (480 / 200) = 5404319552844595 / 2251799813685248"
    by (subst fl_eval [where k = 51]) (simp_all add: rne_eval)
  have "fl (50 * fl (480 / 200)) = 120"
    unfolding a by (subst fl_eval [where k = 46]) (simp_all add: rne_eval)
  then show ?thesis by (simp add: to_keypoint_def)
qed

text \<open>
  Claim C4, as the claim states it, fails: on a display 1024 wide over a working buffer
  320 wide, the landmark at \<open>x = 3\<close> is put at \<open>9.600000000000001\<close>, the rounded product
  with the rounded quotient, and not at \<open>3 * 1024 / 320 = 9.6\<close>.
\<close>

theorem landmark_remap_counterexample:
  "kx (to_keypoint 1024 480 320 240 (3, 7, 0)) = 1351079888211149 / 140737488355328 \<and>
   (1351079888211149 / 140737488355328 :: rat) \<noteq> 3 * 1024 / 320"
proof -
  have a: "fl (1024 / 320) = 3602879701896397 / 1125899906842624"
    by (subst fl_eval [where k = 51]) (simp_all add: rne_eval)
  have "fl (3 * fl (1024 / 320)) = 1351079888211149 / 140737488355328"
    unfolding a by (subst fl_eval [where k = 49]) (simp_all add: rne_eval)
  then show ?thesis by (simp add: to_keypoint_def)
qed

text \<open>
  Claim C4, amended. With a working buffer of positive size \<open>(ww, wh)\<close> and a display of
  size \<open>(dw, dh)\<close>, the landmark \<open>(wx, wy, wz)\<close> becomes the key point whose \<open>x\<close> is
  \<open>wx\<close> times the quotient \<open>dw / ww\<close>, the quotient rounded and then the product, and
  whose \<open>y\<close> is \<open>wy\<close> times \<open>dh / wh\<close> in the same way; \<open>z\<close> is kept. The two
  coordinates are \<open>wx * dw / ww\<close> and \<open>wy * dh / wh\<close> to within a relative error of
  \<open>2^-51\<close>. When an estimation fulfils, the dot of every landmark of every prediction is
  painted at that key point.
\<close>

theorem landmark_remap:
  assumes "0 < ww" and "0 < wh"
  shows "to_keypoint dw dh ww wh (wx, wy, wz) =
           Keypoint (fl (wx * fl (of_nat dw / of_nat ww)))
                    (fl (wy * fl (of_nat dh / of_nat wh))) wz \<and>
         \<bar>kx (to_keypoint dw dh ww wh (wx, wy, wz)) - wx * of_nat dw / of_nat ww\<bar>
           \<le> \<bar>wx * of_nat dw / of_nat ww\<bar> / 2 ^ 51 \<and>
         \<bar>ky (to_keypoint dw dh ww wh (wx, wy, wz)) - wy * of_nat dh / of_nat wh\<bar>
           \<le> \<bar>wy * of_nat dh / of_nat wh\<bar> / 2 ^ 51 \<and>
         (canvas_width s = dw \<and> canvas_height s = dh \<and> off_width s = ww \<and> off_height s = wh \<and>
          landmarks \<in> set predictions \<and> (wx, wy, wz) \<in> set landmarks \<longrightarrow>
            Arc (kx (to_keypoint dw dh ww wh (wx, wy, wz)))
                (ky (to_keypoint dw dh ww wh (wx, wy, wz)))
              \<in> set (overlay (fst (loop_resume (Fulfilled predictions) s))))"
proof -
  have kp: "to_keypoint dw dh ww wh (wx, wy, wz) =
           Keypoint (fl (wx * fl (of_nat dw / of_nat ww)))
                    (fl (wy * fl (of_nat dh / of_nat wh))) wz"
    by (simp add: to_keypoint_def)
  have ex: "\<bar>kx (to_keypoint dw dh ww wh (wx, wy, wz)) - wx * of_nat dw / of_nat ww\<bar>
           \<le> \<bar>wx * of_nat dw / of_nat ww\<bar> / 2 ^ 51"
    using fl_product_error [of wx "of_nat dw / of_nat ww"] by (simp add: kp)
  have ey: "\<bar>ky (to_keypoint dw dh ww wh (wx, wy, wz)) - wy * of_nat dh / of_nat wh\<bar>
           \<le> \<bar>wy * of_nat dh / of_nat wh\<bar> / 2 ^ 51"
    using fl_product_error [of wy "of_nat dh / of_nat wh"] by (simp add: kp)
  have "Arc (kx (to_keypoint dw dh ww wh (wx, wy, wz)))
            (ky (to_keypoint dw dh ww wh (wx, wy, wz)))
          \<in> set (draw_prediction dw dh ww wh landmarks)"
    if "(wx, wy, wz) \<in> set landmarks"
    using that by (rule arc_drawn)
  then have painted: "canvas_width s = dw \<and> canvas_height s = dh \<and> off_width s = ww \<and>
      off_height s = wh \<and> landmarks \<in> set predictions \<and> (wx, wy, wz) \<in> set landmarks \<longrightarrow>
        Arc (kx (to_keypoint dw dh ww wh (wx, wy, wz)))
            (ky (to_keypoint dw dh ww wh (wx, wy, wz)))
          \<in> set (overlay (fst (loop_resume (Fulfilled predictions) s)))"
    by (auto simp: overlay_fulfilled)
  show ?thesis using kp ex ey painted by blast
qed

theorem landmark_remap_witness:
  "(0::nat) < 320 \<and> (0::nat) < 200 \<and>
   to_keypoint 640 480 320 200 (100, 50, 7) = Keypoint 200 120 7 \<and>
   Arc 200 120 \<in> set (overlay (fst (loop_resume (Fulfilled [[(100, 50, 7)]])
       \<lparr>isEstimating = True, lastEstimate = 100, canvas_width = 640, canvas_height = 480,
        off_width = 320, off_height = 200, overlay = [], inFlight = 1\<rparr>)))"
  using landmark_remap [of 320 200 640 480 100 50 7
      "\<lparr>isEstimating = True, lastEstimate = 100, canvas_width = 640, canvas_height = 480,
        off_width = 320, off_height = 200, overlay = [], inFlight = 1\<rparr>"
      "[(100, 50, 7)]" "[[(100, 50, 7)]]"]
  by (simp add: keypoint_640_480_320_200)

subsection \<open>Rate limit\<close>

text \<open>
  Claim C5. The minimum interval is 1000 / 10 ms. In any reachable state, a tick less
  than that after the last estimate leaves the state as it is and only requests the next
  animation frame; a tick at least that long after the last estimate, with the video
  ready and no estimation pending, calls the estimator (and records its time).
\<close>

theorem rate_limit:
  assumes "s = run (init_scheduler w h) evs"
  shows "minInterval = 1000 / 10 \<and>
     (now - lastEstimate s < minInterval \<longrightarrow>
        loop_tick now readyState vw vh s = (s, [RequestAnimationFrame])) \<and>
     (minInterval \<le> now - lastEstimate s \<and> readyState = 4 \<and> inFlight s = 0 \<longrightarrow>
        snd (loop_tick now readyState vw vh s) = [EstimateHands targetW (targetH vw vh)] \<and>
        lastEstimate (fst (loop_tick now readyState vw vh s)) = now)"
proof -
  have inv: "inFlight s = (if isEstimating s then 1 else 0)"
    unfolding assms by (rule reachable_flag_count)
  show ?thesis using inv by (auto simp: loop_tick_def minInterval_value split: if_splits)
qed

theorem rate_limit_witness:
  "minInterval = 1000 / 10 \<and>
   loop_tick 150 4 640 480 (run (init_scheduler 640 480) [Tick 100 4 640 480, Settle (Fulfilled [])])
     = (run (init_scheduler 640 480) [Tick 100 4 640 480, Settle (Fulfilled [])],
        [RequestAnimationFrame]) \<and>
   snd (loop_tick 200 4 640 480
          (run (init_scheduler 640 480) [Tick 100 4 640 480, Settle (Fulfilled [])]))
     = [EstimateHands 320 240]"
  using rate_limit [of "run (init_scheduler 640 480) [Tick 100 4 640 480, Settle (Fulfilled [])]"
      640 480 "[Tick 100 4 640 480, Settle (Fulfilled [])]" 150 4 640 480]
    rate_limit [of "run (init_scheduler 640 480) [Tick 100 4 640 480, Settle (Fulfilled [])]"
      640 480 "[Tick 100 4 640 480, Settle (Fulfilled [])]" 200 4 640 480]
  by (simp add: detection_defs targetH_640_480)

subsection \<open>A rejected estimation\<close>

text \<open>
  A fulfilled estimation with no hand clears the overlay: line 119 runs before the guard
  of line 121.
\<close>

lemma fulfilled_empty_clears_overlay:
  "overlay (fst (loop_resume (Fulfilled []) s)) = [] \<and>
   ClearRect \<in> set (snd (loop_resume (Fulfilled []) s))"
  by (simp add: loop_resume_def after_await_def Let_def)

text \<open>
  On the rejected path the failure is logged, the flag is released, the tick returns
  normally and requests the next animation frame once, with no further estimator call.
\<close>

lemma rejected_path:
  "loop_resume (Rejected err) s =
     (s\<lparr>isEstimating := False, inFlight := inFlight s - 1\<rparr>,
      [ConsoleError err, RequestAnimationFrame])"
  by (simp add: loop_resume_def after_await_def Let_def)

text \<open>
  Claim C6 on the code: a fulfilled estimation paints a hand, the next estimation rejects.
  The rejected tick does not clear the canvas, and the stale painting of the hand is still
  on the overlay afterwards.
\<close>

theorem rejected_estimation_keeps_stale_overlay:
  "overlay (run (init_scheduler 640 480)
      [Tick 100 4 640 480, Settle (Fulfilled [[(10, 20, 0)]]),
       Tick 300 4 640 480, Settle (Rejected ''model error'')])
     = [Arc 20 40, StrokeRect 10 30 20 20, FillText ''Hand'' 20 32] \<and>
   ClearRect \<notin> set (snd (loop_resume (Rejected ''model error'')
     (run (init_scheduler 640 480)
      [Tick 100 4 640 480, Settle (Fulfilled [[(10, 20, 0)]]), Tick 300 4 640 480])))"
  by (simp add: detection_defs targetH_640_480)

section \<open>Properties of a sampling tick and of a recording session\<close>

subsection \<open>Constants and the tolerance band in doubles\<close>

lemma RECORDING_DURATION_value: "RECORDING_DURATION = 3000"
  by (simp add: RECORDING_DURATION_def)

lemma frameInterval_value: "frameInterval = 4691249611844267 / 70368744177664"
  unfolding frameInterval_def FRAMES_PER_SECOND_def
  by (subst fl_eval [where k = 46]) (simp_all add: rne_eval)

lemma fl_fifth: "fl 0.2 = 3602879701896397 / 18014398509481984"
  by (subst fl_eval [where k = 55]) (simp_all add: rne_eval)

lemma fl_four_fifths: "fl 0.8 = 3602879701896397 / 4503599627370496"
  by (subst fl_eval [where k = 53]) (simp_all add: rne_eval)

lemma tolerance_value: "fl (frameInterval * fl 0.2) = 1876499844737707 / 140737488355328"
  unfolding frameInterval_value fl_fifth
  by (subst fl_eval [where k = 49]) (simp_all add: rne_eval)

lemma tick_period_value: "tick_period = 53"
  unfolding tick_period_def frameInterval_value fl_four_fifths
  by (subst fl_eval [where k = 47]) (simp_all add: rne_eval)

text \<open>The representable spacings at the two ends of the band.\<close>

lemma fl_low_reject: "fl (7505999378950827 / 140737488355328) = 7505999378950827 / 140737488355328"
  by (subst fl_eval [where k = 47]) (simp_all add: rne_eval)

lemma fl_low_accept: "fl (1876499844737707 / 35184372088832) = 1876499844737707 / 35184372088832"
  by (subst fl_eval [where k = 47]) (simp_all add: rne_eval)

lemma fl_high_reject: "fl (5629499534213121 / 70368744177664) = 5629499534213121 / 70368744177664"
  by (subst fl_eval [where k = 46]) (simp_all add: rne_eval)

text \<open>Their differences to the nominal interval.\<close>

lemma fl_inner: "fl (938249922368853 / 70368744177664) = 938249922368853 / 70368744177664"
  by (subst fl_eval [where k = 49]) (simp_all add: rne_eval)

lemma fl_tolerance: "fl (1876499844737707 / 140737488355328) = 1876499844737707 / 140737488355328"
  by (subst fl_eval [where k = 49]) (simp_all add: rne_eval)

lemma fl_outer: "fl (469124961184427 / 35184372088832) = 469124961184427 / 35184372088832"
  by (subst fl_eval [where k = 49]) (simp_all add: rne_eval)

lemma test_inside:
  assumes "1876499844737707 / 35184372088832 \<le> y" and "y \<le> 80"
  shows "\<bar>fl (y - frameInterval)\<bar> < fl (frameInterval * fl 0.2)"
proof -
  have lo: "- (938249922368853 / 70368744177664) \<le> y - frameInterval"
    and hi: "y - frameInterval \<le> 938249922368853 / 70368744177664"
    using assms unfolding frameInterval_value by simp_all
  have "fl (- (938249922368853 / 70368744177664)) \<le> fl (y - frameInterval)"
    using lo by (rule fl_mono)
  moreover have "fl (y - frameInterval) \<le> fl (938249922368853 / 70368744177664)"
    using hi by (rule fl_mono)
  ultimately show ?thesis unfolding fl_minus fl_inner tolerance_value by simp
qed

lemma test_below:
  assumes "y \<le> 7505999378950827 / 140737488355328"
  shows "\<not> \<bar>fl (y - frameInterval)\<bar> < fl (frameInterval * fl 0.2)"
proof -
  have "y - frameInterval \<le> - (1876499844737707 / 140737488355328)"
    using assms unfolding frameInterval_value by simp
  then have "fl (y - frameInterval) \<le> fl (- (1876499844737707 / 140737488355328))"
    by (rule fl_mono)
  then show ?thesis unfolding fl_minus fl_tolerance tolerance_value by simp
qed

lemma test_above:
  assumes "5629499534213121 / 70368744177664 \<le> y"
  shows "\<not> \<bar>fl (y - frameInterval)\<bar> < fl (frameInterval * fl 0.2)"
proof -
  have "469124961184427 / 35184372088832 \<le> y - frameInterval"
    using assms unfolding frameInterval_value by simp
  then have "fl (469124961184427 / 35184372088832) \<le> fl (y - frameInterval)"
    by (rule fl_mono)
  then show ?thesis unfolding fl_outer tolerance_value by simp
qed


text \<open>No representable spacing lies strictly between the ends and their neighbours.\<close>

lemma fl_above_80:
  assumes "80 < fl x"
  shows "5629499534213121 / 70368744177664 \<le> fl x"
proof (cases "5629499534213121 / 70368744177664 \<le> x")
  case True
  then have "fl (5629499534213121 / 70368744177664) \<le> fl x" by (rule fl_mono)
  then show ?thesis unfolding fl_high_reject .
next
  case False
  have "\<not> x \<le> 80"
  proof
    assume "x \<le> 80"
    then have "fl x \<le> fl 80" by (rule fl_mono)
    then show False using assms by simp
  qed
  then have x: "80 < x" "x < 5629499534213121 / 70368744177664" using False by simp_all
  have eq: "fl x = of_int (rne (x * 2 powi 46)) / 2 powi 46"
    using x by (intro fl_eval) simp_all
  have "\<lfloor>x * 2 powi 46\<rfloor> = 5629499534213120"
    using x by (simp add: floor_eq_iff)
  then have "rne (x * 2 powi 46) \<le> 5629499534213121"
    using rne_between [of "x * 2 powi 46"] by simp
  moreover have "5629499534213120 < rne (x * 2 powi 46)"
  proof (rule ccontr)
    assume "\<not> 5629499534213120 < rne (x * 2 powi 46)"
    then have "rne (x * 2 powi 46) \<le> 5629499534213120" by simp
    then have "rat_of_int (rne (x * 2 powi 46)) \<le> of_int 5629499534213120"
      by (simp only: of_int_le_iff)
    then have "fl x \<le> 80" unfolding eq by (simp add: field_simps)
    then show False using assms by simp
  qed
  ultimately have "rne (x * 2 powi 46) = 5629499534213121" by simp
  then show ?thesis unfolding eq by simp
qed

lemma fl_above_low:
  assumes "7505999378950827 / 140737488355328 < fl x"
  shows "1876499844737707 / 35184372088832 \<le> fl x"
proof (cases "1876499844737707 / 35184372088832 \<le> x")
  case True
  then have "fl (1876499844737707 / 35184372088832) \<le> fl x" by (rule fl_mono)
  then show ?thesis unfolding fl_low_accept .
next
  case False
  have "\<not> x \<le> 7505999378950827 / 140737488355328"
  proof
    assume "x \<le> 7505999378950827 / 140737488355328"
    then have "fl x \<le> fl (7505999378950827 / 140737488355328)" by (rule fl_mono)
    then show False using assms unfolding fl_low_reject by simp
  qed
  then have x: "7505999378950827 / 140737488355328 < x" "x < 1876499844737707 / 35184372088832"
    using False by simp_all
  have eq: "fl x = of_int (rne (x * 2 powi 47)) / 2 powi 47"
    using x by (intro fl_eval) simp_all
  have "\<lfloor>x * 2 powi 47\<rfloor> = 7505999378950827"
    using x by (simp add: floor_eq_iff)
  then have "rne (x * 2 powi 47) \<le> 7505999378950828"
    using rne_between [of "x * 2 powi 47"] by simp
  moreover have "7505999378950827 < rne (x * 2 powi 47)"
  proof (rule ccontr)
    assume "\<not> 7505999378950827 < rne (x * 2 powi 47)"
    then have "rne (x * 2 powi 47) \<le> 7505999378950827" by simp
    then have "rat_of_int (rne (x * 2 powi 47)) \<le> of_int 7505999378950827"
      by (simp only: of_int_le_iff)
    then have "fl x \<le> 7505999378950827 / 140737488355328" unfolding eq by (simp add: field_simps)
    then show False using assms by simp
  qed
  ultimately have "rne (x * 2 powi 47) = 7505999378950828" by simp
  then show ?thesis unfolding eq by simp
qed

text \<open>The test of line 48, exactly.\<close>

lemma accepts_iff:
  "accepts c t frame \<longleftrightarrow>
     truthy frame \<and> 7505999378950827 / 140737488355328 < fl (t - lastFrameTime c) \<and>
     fl (t - lastFrameTime c) \<le> 80"
proof -
  let ?y = "fl (t - lastFrameTime c)"
  have "\<bar>fl (?y - frameInterval)\<bar> < fl (frameInterval * fl 0.2) \<longleftrightarrow>
      7505999378950827 / 140737488355328 < ?y \<and> ?y \<le> 80"
  proof
    assume a: "\<bar>fl (?y - frameInterval)\<bar> < fl (frameInterval * fl 0.2)"
    have "\<not> ?y \<le> 7505999378950827 / 140737488355328" using a test_below by blast
    moreover have "\<not> 80 < ?y"
    proof
      assume "80 < ?y"
      then have "5629499534213121 / 70368744177664 \<le> ?y" by (rule fl_above_80)
      then show False using a test_above by blast
    qed
    ultimately show "7505999378950827 / 140737488355328 < ?y \<and> ?y \<le> 80" by simp
  next
    assume b: "7505999378950827 / 140737488355328 < ?y \<and> ?y \<le> 80"
    then have "1876499844737707 / 35184372088832 \<le> ?y" using fl_above_low by blast
    then show "\<bar>fl (?y - frameInterval)\<bar> < fl (frameInterval * fl 0.2)"
      using b by (intro test_inside) simp_all
  qed
  then show ?thesis by (simp add: accepts_def Let_def)
qed

text \<open>The same in terms of the exact spacing.\<close>

lemma accepts_inside:
  assumes "truthy frame" and "1876499844737707 / 35184372088832 \<le> t - lastFrameTime c"
    and "t - lastFrameTime c \<le> 80"
  shows "accepts c t frame"
proof -
  have "fl (1876499844737707 / 35184372088832) \<le> fl (t - lastFrameTime c)"
    using assms(2) by (rule fl_mono)
  moreover have "fl (t - lastFrameTime c) \<le> fl 80" using assms(3) by (rule fl_mono)
  ultimately show ?thesis using assms(1) unfolding accepts_iff fl_low_accept by simp
qed

lemma accepts_gap:
  assumes "accepts c t frame"
  shows "160 / 3 < t - lastFrameTime c"
proof (rule ccontr)
  assume "\<not> 160 / 3 < t - lastFrameTime c"
  then have "t - lastFrameTime c \<le> 7505999378950827 / 140737488355328" by simp
  then have "fl (t - lastFrameTime c) \<le> fl (7505999378950827 / 140737488355328)" by (rule fl_mono)
  then show False using assms unfolding accepts_iff fl_low_reject by simp
qed

lemma rejects_early: "t - lastFrameTime c \<le> 160 / 3 \<Longrightarrow> \<not> accepts c t frame"
  using accepts_gap [of c t frame] by auto

lemma rejects_late:
  assumes "81 \<le> t - lastFrameTime c"
  shows "\<not> accepts c t frame"
proof -
  have "fl 81 \<le> fl (t - lastFrameTime c)" using assms by (rule fl_mono)
  then show ?thesis unfolding accepts_iff by simp
qed

text \<open>For evaluating the test at a given spacing.\<close>

lemma accepts_eval:
  "1876499844737707 / 35184372088832 \<le> t - lastFrameTime c \<Longrightarrow> t - lastFrameTime c \<le> 80 \<Longrightarrow>
     accepts c t frame = truthy frame"
  "t - lastFrameTime c \<le> 160 / 3 \<Longrightarrow> accepts c t frame = False"
  "81 \<le> t - lastFrameTime c \<Longrightarrow> accepts c t frame = False"
proof -
  show "accepts c t frame = truthy frame"
    if "1876499844737707 / 35184372088832 \<le> t - lastFrameTime c" "t - lastFrameTime c \<le> 80"
    using that accepts_inside [of frame t c] by (auto simp: accepts_def)
  show "accepts c t frame = False" if "t - lastFrameTime c \<le> 160 / 3"
    using that rejects_early by simp
  show "accepts c t frame = False" if "81 \<le> t - lastFrameTime c"
    using that rejects_late by simp
qed

subsection \<open>Unfolding one tick\<close>

lemma collect_accepted:
  "accepts c t frame \<Longrightarrow> collect c t frame = c\<lparr>frames := frames c @ [the frame], lastFrameTime := t\<rparr>"
  by (auto simp: collect_def accepts_def truthy_def split: option.splits)

lemma collect_rejected: "\<not> accepts c t frame \<Longrightarrow> collect c t frame = c"
  by (auto simp: collect_def split: option.splits)

lemma startTime_collect [simp]: "startTime (collect c t frame) = startTime c"
  by (cases "accepts c t frame") (simp_all add: collect_accepted collect_rejected)

lemma sample_tick_simps [simp]:
  "after (sample_tick c t frame) = collect c t frame"
  "pushed (sample_tick c t frame) = accepts c t frame"
  "progress (sample_tick c t frame) = min ((t - startTime c) / RECORDING_DURATION * 100) 100"
  "finished (sample_tick c t frame) = (RECORDING_DURATION \<le> t - startTime c)"
  by (simp_all add: sample_tick_def Let_def)

lemma record_ticks_Cons:
  "record_ticks rec ((t, frame) # rest) =
     (if RECORDING_DURATION \<le> t - startTime (closure rec)
      then rec\<lparr>closure := collect (closure rec) t frame,
               timestamps := (if accepts (closure rec) t frame then timestamps rec @ [t] else timestamps rec),
               reports := reports rec @ [min ((t - startTime (closure rec)) / RECORDING_DURATION * 100) 100, 0],
               captured := Some (frames (collect (closure rec) t frame))\<rparr>
      else record_ticks
             (rec\<lparr>closure := collect (closure rec) t frame,
               timestamps := (if accepts (closure rec) t frame then timestamps rec @ [t] else timestamps rec),
               reports := reports rec @ [min ((t - startTime (closure rec)) / RECORDING_DURATION * 100) 100]\<rparr>)
             rest)"
  by (simp add: Let_def)


lemma startTime_record_ticks [simp]:
  "startTime (closure (record_ticks rec ticks)) = startTime (closure rec)"
proof (induction ticks arbitrary: rec)
  case Nil
  then show ?case by simp
next
  case (Cons tk ticks)
  obtain t frame where tk: "tk = (t, frame)" by (cases tk)
  show ?case unfolding tk record_ticks_Cons by (simp add: Cons.IH)
qed

subsection \<open>Sessions whose ticks are all rejected, and sessions that end\<close>

lemma record_ticks_all_rejected:
  assumes "\<forall>tk\<in>set ticks. \<not> accepts (closure rec) (fst tk) (snd tk)"
  shows "closure (record_ticks rec ticks) = closure rec \<and>
         timestamps (record_ticks rec ticks) = timestamps rec"
  using assms
proof (induction ticks arbitrary: rec)
  case Nil
  then show ?case by simp
next
  case (Cons tk ticks)
  obtain t frame where tk: "tk = (t, frame)" by (cases tk)
  have rej: "\<not> accepts (closure rec) t frame" using Cons.prems tk by simp
  let ?rec1 = "rec\<lparr>closure := collect (closure rec) t frame,
               timestamps := (if accepts (closure rec) t frame then timestamps rec @ [t] else timestamps rec),
               reports := reports rec @ [min ((t - startTime (closure rec)) / RECORDING_DURATION * 100) 100]\<rparr>"
  have c1: "closure ?rec1 = closure rec" "timestamps ?rec1 = timestamps rec"
    using rej by (simp_all add: collect_rejected)
  have "\<forall>tk\<in>set ticks. \<not> accepts (closure ?rec1) (fst tk) (snd tk)"
    using Cons.prems c1 by simp
  from Cons.IH [OF this] show ?case
    unfolding tk record_ticks_Cons using c1 by simp
qed

lemma record_ticks_finishes:
  assumes "\<exists>tk\<in>set ticks. RECORDING_DURATION \<le> fst tk - startTime (closure rec)"
  shows "captured (record_ticks rec ticks) = Some (frames (closure (record_ticks rec ticks)))"
  using assms
proof (induction ticks arbitrary: rec)
  case Nil
  then show ?case by simp
next
  case (Cons tk ticks)
  obtain t frame where tk: "tk = (t, frame)" by (cases tk)
  show ?case
  proof (cases "RECORDING_DURATION \<le> t - startTime (closure rec)")
    case True
    then show ?thesis unfolding tk record_ticks_Cons by simp
  next
    case False
    then have "\<exists>tk\<in>set ticks. RECORDING_DURATION \<le> fst tk - startTime (closure rec)"
      using Cons.prems tk by auto
    then show ?thesis unfolding tk record_ticks_Cons using False
      by (simp add: Cons.IH)
  qed
qed

subsection \<open>A timer that fires at a steady rate inside the band\<close>

lemma record_ticks_steady:
  assumes band: "1876499844737707 / 35184372088832 \<le> d \<and> d \<le> 80"
    and shots: "\<forall>k. truthy (shot k)"
    and start: "startTime (closure rec) = t0"
    and last: "lastFrameTime (closure rec) = t0 + d * of_nat j"
    and early: "\<forall>k. j < k \<and> k < j + n \<longrightarrow> d * of_nat k < RECORDING_DURATION"
  shows "timestamps (record_ticks rec (map (\<lambda>k. (t0 + d * of_nat k, shot k)) [Suc j..<Suc (j + n)])) =
           timestamps rec @ map (\<lambda>k. t0 + d * of_nat k) [Suc j..<Suc (j + n)] \<and>
         frames (closure (record_ticks rec (map (\<lambda>k. (t0 + d * of_nat k, shot k)) [Suc j..<Suc (j + n)]))) =
           frames (closure rec) @ map (\<lambda>k. the (shot k)) [Suc j..<Suc (j + n)]"
  using start last early
proof (induction n arbitrary: j rec)
  case 0
  then show ?case by simp
next
  case (Suc n)
  let ?t = "t0 + d * of_nat (Suc j)"
  let ?c = "closure rec"
  have upt: "[Suc j..<Suc (j + Suc n)] = Suc j # [Suc (Suc j)..<Suc (Suc j + n)]"
    by (simp add: upt_conv_Cons)
  have "?t - lastFrameTime ?c = d" using Suc.prems(2) by (simp add: algebra_simps)
  then have acc: "accepts ?c ?t (shot (Suc j))"
    using band shots by (intro accepts_inside) simp_all
  let ?rec1 = "rec\<lparr>closure := collect ?c ?t (shot (Suc j)),
               timestamps := (if accepts ?c ?t (shot (Suc j)) then timestamps rec @ [?t] else timestamps rec),
               reports := reports rec @ [min ((?t - startTime ?c) / RECORDING_DURATION * 100) 100]\<rparr>"
  have c1: "closure ?rec1 = ?c\<lparr>frames := frames ?c @ [the (shot (Suc j))], lastFrameTime := ?t\<rparr>"
    and ts1: "timestamps ?rec1 = timestamps rec @ [?t]"
    using acc by (simp_all add: collect_accepted)
  show ?case
  proof (cases "RECORDING_DURATION \<le> ?t - startTime ?c")
    case True
    have "n = 0"
    proof (rule ccontr)
      assume "n \<noteq> 0"
      then have "d * of_nat (Suc j) < RECORDING_DURATION"
        using Suc.prems(3) [rule_format, of "Suc j"] by simp
      then show False using True Suc.prems(1) by simp
    qed
    then show ?thesis
      unfolding upt list.map record_ticks_Cons using True acc
      by (simp add: collect_accepted)
  next
    case False
    have s1: "startTime (closure ?rec1) = t0" using Suc.prems(1) by simp
    have l1: "lastFrameTime (closure ?rec1) = t0 + d * of_nat (Suc j)" by (subst c1) simp
    have e1: "\<forall>k. Suc j < k \<and> k < Suc j + n \<longrightarrow> d * of_nat k < RECORDING_DURATION"
      using Suc.prems(3) by simp
    from Suc.IH [OF s1 l1 e1] show ?thesis
      unfolding upt list.map record_ticks_Cons using False c1 ts1 by simp
  qed
qed

lemma steady_clock_accepted:
  assumes band: "1876499844737707 / 35184372088832 \<le> d \<and> d \<le> 80"
    and shots: "\<forall>k. truthy (shot k)"
    and early: "\<forall>k. k < n \<longrightarrow> d * of_nat k < RECORDING_DURATION"
  shows "timestamps (record_ticks (start_recording t0) (steady_clock t0 d shot n)) =
           map (\<lambda>k. t0 + d * of_nat k) [1..<Suc n] \<and>
         frames (closure (record_ticks (start_recording t0) (steady_clock t0 d shot n))) =
           map (\<lambda>k. the (shot k)) [1..<Suc n]"
  using record_ticks_steady [OF band shots, of "start_recording t0" t0 0 n] early
  by (simp add: steady_clock_def start_recording_def new_session_def)

subsection \<open>Accepted frames are more than 0.8 intervals apart\<close>

lemma record_ticks_bounded:
  assumes "length (frames (closure rec)) = length (timestamps rec)"
    and "160 / 3 * of_nat (length (timestamps rec)) \<le> lastFrameTime (closure rec) - startTime (closure rec)"
    and "lastFrameTime (closure rec) - startTime (closure rec) < RECORDING_DURATION"
    and "\<forall>ts\<in>set (timestamps rec). ts - startTime (closure rec) < RECORDING_DURATION"
    and "captured rec = None"
  shows "length (frames (closure (record_ticks rec ticks))) = length (timestamps (record_ticks rec ticks)) \<and>
         length (timestamps (record_ticks rec ticks)) \<le> 57 \<and>
         (\<forall>ts\<in>set (butlast (timestamps (record_ticks rec ticks))). ts - startTime (closure rec) < RECORDING_DURATION) \<and>
         (captured (record_ticks rec ticks) = None \<longrightarrow>
            length (timestamps (record_ticks rec ticks)) \<le> 56 \<and>
            (\<forall>ts\<in>set (timestamps (record_ticks rec ticks)). ts - startTime (closure rec) < RECORDING_DURATION))"
  using assms
proof (induction ticks arbitrary: rec)
  case Nil
  have "rat_of_nat (length (timestamps rec)) < 57"
    using Nil.prems(2,3) by (simp add: RECORDING_DURATION_value)
  then have "length (timestamps rec) < 57" by (simp only: of_nat_less_numeral_iff) 
  then show ?case using Nil.prems by (auto dest: in_set_butlastD)
next
  case (Cons tk ticks)
  obtain t frame where tk: "tk = (t, frame)" by (cases tk)
  let ?c = "closure rec"
  let ?rec1 = "rec\<lparr>closure := collect ?c t frame,
               timestamps := (if accepts ?c t frame then timestamps rec @ [t] else timestamps rec),
               reports := reports rec @ [min ((t - startTime ?c) / RECORDING_DURATION * 100) 100]\<rparr>"
  have "rat_of_nat (length (timestamps rec)) < 57"
    using Cons.prems(2,3) by (simp add: RECORDING_DURATION_value)
  then have n56: "length (timestamps rec) \<le> 56" by (simp only: of_nat_less_numeral_iff)
  show ?case
  proof (cases "RECORDING_DURATION \<le> t - startTime ?c")
    case True
    show ?thesis
      unfolding tk record_ticks_Cons using True n56 Cons.prems
      by (cases "accepts ?c t frame") (auto simp: collect_accepted collect_rejected dest: in_set_butlastD)
  next
    case False
    have p1: "length (frames (closure ?rec1)) = length (timestamps ?rec1)"
      using Cons.prems(1) by (cases "accepts ?c t frame") (simp_all add: collect_accepted collect_rejected)
    have p2: "160 / 3 * of_nat (length (timestamps ?rec1)) \<le> lastFrameTime (closure ?rec1) - startTime (closure ?rec1)"
    proof (cases "accepts ?c t frame")
      case True
      then have gap: "160 / 3 < t - lastFrameTime ?c" by (rule accepts_gap)
      have "160 / 3 * rat_of_nat (Suc (length (timestamps rec))) =
              160 / 3 * rat_of_nat (length (timestamps rec)) + 160 / 3"
        by (simp add: algebra_simps)
      also have "\<dots> \<le> t - startTime ?c" using gap Cons.prems(2) by linarith
      finally show ?thesis using True by (simp add: collect_accepted)
    next
      case False
      then show ?thesis using Cons.prems(2) by (simp add: collect_rejected)
    qed
    have p3: "lastFrameTime (closure ?rec1) - startTime (closure ?rec1) < RECORDING_DURATION"
      using Cons.prems(3) False by (cases "accepts ?c t frame") (auto simp: collect_accepted collect_rejected)
    have p4: "\<forall>ts\<in>set (timestamps ?rec1). ts - startTime (closure ?rec1) < RECORDING_DURATION"
      using Cons.prems(4) False by auto
    have p5: "captured ?rec1 = None" using Cons.prems(5) by simp
    from Cons.IH [OF p1 p2 p3 p4 p5] show ?thesis
      unfolding tk record_ticks_Cons using False by simp
  qed
qed

subsection \<open>Progress values\<close>

lemma progress_formula:
  "min ((e / RECORDING_DURATION) * 100) 100 = min (e / RECORDING_DURATION) 1 * 100"
  by (simp add: RECORDING_DURATION_value min_def)

lemma progress_full:
  "min ((e / RECORDING_DURATION) * 100) 100 = 100 \<longleftrightarrow> RECORDING_DURATION \<le> e"
  by (simp add: RECORDING_DURATION_value min_def)

lemma progress_mono:
  "e \<le> e' \<Longrightarrow> min ((e / RECORDING_DURATION) * 100) 100 \<le> min ((e' / RECORDING_DURATION) * 100) 100"
  by (simp add: RECORDING_DURATION_value min_def)

lemma progress_values_record_ticks:
  assumes "captured rec = None"
  shows "\<exists>k\<le>length ticks. progress_values (record_ticks rec ticks) =
      reports rec @ map (\<lambda>tk. min (((fst tk - startTime (closure rec)) / RECORDING_DURATION) * 100) 100) (take k ticks)"
  using assms
proof (induction ticks arbitrary: rec)
  case Nil
  then show ?case by (simp add: progress_values_def)
next
  case (Cons tk ticks)
  obtain t frame where tk: "tk = (t, frame)" by (cases tk)
  let ?P = "\<lambda>tk. min (((fst tk - startTime (closure rec)) / RECORDING_DURATION) * 100) 100"
  show ?case
  proof (cases "RECORDING_DURATION \<le> t - startTime (closure rec)")
    case True
    have "progress_values (record_ticks rec (tk # ticks)) = reports rec @ map ?P (take 1 (tk # ticks))"
      unfolding tk record_ticks_Cons using True by (simp add: progress_values_def butlast_append)
    then show ?thesis by (intro exI [of _ 1]) simp
  next
    case False
    let ?rec1 = "rec\<lparr>closure := collect (closure rec) t frame,
               timestamps := (if accepts (closure rec) t frame then timestamps rec @ [t] else timestamps rec),
               reports := reports rec @ [min ((t - startTime (closure rec)) / RECORDING_DURATION * 100) 100]\<rparr>"
    have "captured ?rec1 = None" using Cons.prems by simp
    from Cons.IH [OF this] obtain k where k: "k \<le> length ticks"
      and eq: "progress_values (record_ticks ?rec1 ticks) =
        reports ?rec1 @ map (\<lambda>tk. min (((fst tk - startTime (closure ?rec1)) / RECORDING_DURATION) * 100) 100) (take k ticks)"
      by blast
    have "progress_values (record_ticks rec (tk # ticks)) = reports rec @ map ?P (take (Suc k) (tk # ticks))"
      unfolding tk record_ticks_Cons using False eq by simp
    then show ?thesis using k by (intro exI [of _ "Suc k"]) simp
  qed
qed

lemma progress_reports_sorted:
  assumes "sorted (map fst ticks)"
  shows "sorted (map (\<lambda>tk. min (((fst tk - t0) / RECORDING_DURATION) * 100) 100) (take k ticks))"
proof -
  have "sorted (take k (map fst ticks))" using assms by (rule sorted_wrt_take)
  then have "sorted (map (\<lambda>t. min (((t - t0) / RECORDING_DURATION) * 100) 100) (take k (map fst ticks)))"
  proof (rule sorted_map_mono)
    show "mono_on (set (take k (map fst ticks))) (\<lambda>t. min (((t - t0) / RECORDING_DURATION) * 100) 100)"
    proof (rule mono_onI)
      fix r s :: rat
      assume "r \<le> s"
      then have "r - t0 \<le> s - t0" by simp
      then show "min (((r - t0) / RECORDING_DURATION) * 100) 100 \<le> min (((s - t0) / RECORDING_DURATION) * 100) 100"
        by (rule progress_mono)
    qed
  qed
  then show ?thesis by (simp add: take_map comp_def)
qed

lemma finished_reports:
  assumes "captured rec = None" and "captured (record_ticks rec ticks) \<noteq> None"
  shows "reports (record_ticks rec ticks) = progress_values (record_ticks rec ticks) @ [0] \<and>
         progress_values (record_ticks rec ticks) \<noteq> [] \<and>
         last (progress_values (record_ticks rec ticks)) = 100"
  using assms
proof (induction ticks arbitrary: rec)
  case Nil
  then show ?case by simp
next
  case (Cons tk ticks)
  obtain t frame where tk: "tk = (t, frame)" by (cases tk)
  show ?case
  proof (cases "RECORDING_DURATION \<le> t - startTime (closure rec)")
    case True
    then have "min (((t - startTime (closure rec)) / RECORDING_DURATION) * 100) 100 = 100"
      by (simp only: progress_full)
    then show ?thesis unfolding tk record_ticks_Cons using True
      by (simp add: progress_values_def butlast_append)
  next
    case False
    then show ?thesis using Cons.prems unfolding tk record_ticks_Cons
      by (simp add: Cons.IH)
  qed
qed

subsection \<open>Ticks after the timer has cleared itself\<close>

lemma record_ticks_append_finished:
  assumes "captured rec = None" and "captured (record_ticks rec xs) \<noteq> None"
  shows "record_ticks rec (xs @ ys) = record_ticks rec xs"
  using assms
proof (induction xs arbitrary: rec)
  case Nil
  then show ?case by simp
next
  case (Cons tk xs)
  obtain t frame where tk: "tk = (t, frame)" by (cases tk)
  show ?case
  proof (cases "RECORDING_DURATION \<le> t - startTime (closure rec)")
    case True
    then show ?thesis unfolding tk append_Cons record_ticks_Cons by simp
  next
    case False
    then show ?thesis using Cons.prems unfolding tk append_Cons record_ticks_Cons
      by (simp add: Cons.IH)
  qed
qed

lemma steady_clock_add:
  "steady_clock t0 d shot (a + b) =
     steady_clock t0 d shot a @ map (\<lambda>k. (t0 + d * of_nat k, shot k)) [Suc a..<Suc (a + b)]"
  unfolding steady_clock_def map_append [symmetric]
  by (rule arg_cong [where f = "map _"]) (metis One_nat_def add_Suc upt_add_eq_append le_add1 plus_1_eq_Suc Suc_le_mono le0)

lemma truthy_same_shot: "d \<noteq> [] \<Longrightarrow> \<forall>k. truthy (same_shot d k)"
  by (simp add: truthy_def same_shot_def)

lemma steady_clock_member:
  assumes "1 \<le> k" and "k \<le> n"
  shows "(t0 + d * of_nat k, shot k) \<in> set (steady_clock t0 d shot n)"
  using assms unfolding steady_clock_def by (auto simp: image_iff intro!: bexI [of _ k])

lemma steady_667:
  assumes shots: "\<forall>k. truthy (shot k)"
  shows "timestamps (record_ticks (start_recording t0) (steady_clock t0 (667 / 10) shot n)) =
           map (\<lambda>k. t0 + 667 / 10 * of_nat k) [1..<Suc (min n 45)] \<and>
         frames (closure (record_ticks (start_recording t0) (steady_clock t0 (667 / 10) shot n))) =
           map (\<lambda>k. the (shot k)) [1..<Suc (min n 45)]"
proof -
  have band: "1876499844737707 / 35184372088832 \<le> (667 / 10 :: rat) \<and> (667 / 10 :: rat) \<le> 80"
    by simp
  have early: "\<forall>k. k < m \<longrightarrow> 667 / 10 * rat_of_nat k < RECORDING_DURATION" if "m \<le> 45" for m
  proof (intro allI impI)
    fix k :: nat
    assume "k < m"
    then have "k \<le> 44" using that by simp
    then have "rat_of_nat k \<le> 44" by (simp only: of_nat_le_numeral_iff)
    then show "667 / 10 * rat_of_nat k < RECORDING_DURATION"
      by (simp add: RECORDING_DURATION_value)
  qed
  show ?thesis
  proof (cases "n \<le> 45")
    case True
    then have "min n 45 = n" by simp
    then show ?thesis using steady_clock_accepted [OF band shots early [OF True], of t0] by simp
  next
    case False
    then obtain b where n: "n = 45 + b" using le_Suc_ex [of 45 n] by auto
    let ?run45 = "record_ticks (start_recording t0) (steady_clock t0 (667 / 10) shot 45)"
    have "(t0 + 667 / 10 * of_nat 45, shot 45) \<in> set (steady_clock t0 (667 / 10) shot 45)"
      by (rule steady_clock_member) simp_all
    then have "\<exists>tk\<in>set (steady_clock t0 (667 / 10) shot 45).
        RECORDING_DURATION \<le> fst tk - startTime (closure (start_recording t0))"
      by (intro bexI [of _ "(t0 + 667 / 10 * of_nat 45, shot 45)"])
         (simp_all add: RECORDING_DURATION_value start_recording_def new_session_def)
    then have "captured ?run45 \<noteq> None" using record_ticks_finishes by simp
    then have "record_ticks (start_recording t0) (steady_clock t0 (667 / 10) shot n) = ?run45"
      unfolding n steady_clock_add
      by (intro record_ticks_append_finished) (simp_all add: start_recording_def)
    moreover have "min n 45 = 45" using False by simp
    ultimately show ?thesis
      using steady_clock_accepted [OF band shots early [of 45], of t0] by simp
  qed
qed

subsection \<open>Acceptance of a frame\<close>

text \<open>
  Claim C2, as the claim states it, fails at the upper end of the band: a frame 80 ms
  after the last accepted one is pushed, although \<open>|80 - 1000 / 15|\<close> is equal to
  \<open>0.2 * (1000 / 15)\<close> and not strictly less. Line 48 compares the rounded difference
  \<open>13.333333333333329\<close> with the rounded tolerance \<open>13.333333333333336\<close>.
\<close>

theorem tolerance_band_counterexample:
  "pushed (sample_tick (new_session 1000) 1080 (Some ''jpeg'')) \<and>
   \<not> \<bar>(1080 - lastFrameTime (new_session 1000)) - 1000 / 15\<bar> < 0.2 * (1000 / 15)"
  by (simp add: accepts_eval new_session_def truthy_def)

text \<open>
  Claim C2, amended. A sampling tick pushes its frame exactly when a frame is available
  and the test of line 48 holds as the doubles compute it, which is when the spacing the
  tick computes since the last accepted frame is greater than \<open>53.333333333333336\<close> (the
  number nearest to 160 / 3) and at most 80. For a spacing in whole milliseconds that is
  from 54 to 80 ms, both ends included. Any spacing from 54 to 80 ms is accepted; a
  spacing of at most 160 / 3 ms or of at least 81 ms is rejected. An accepted frame is
  appended, and a rejected tick leaves the closure unchanged. Under a clock that advances
  by exactly 66.7 ms per tick, with a frame available every time, every tick is accepted
  until the session's own end, which comes with the 45th tick.
\<close>

theorem tolerance_band_acceptance:
  "(pushed (sample_tick c t frame) \<longleftrightarrow>
      truthy frame \<and> 7505999378950827 / 140737488355328 < fl (t - lastFrameTime c) \<and>
      fl (t - lastFrameTime c) \<le> 80) \<and>
   (t - lastFrameTime c = of_int n \<longrightarrow>
      (pushed (sample_tick c t frame) \<longleftrightarrow> truthy frame \<and> 54 \<le> n \<and> n \<le> 80)) \<and>
   (truthy frame \<and> 54 \<le> t - lastFrameTime c \<and> t - lastFrameTime c \<le> 80 \<longrightarrow>
      pushed (sample_tick c t frame)) \<and>
   (t - lastFrameTime c \<le> 160 / 3 \<or> 81 \<le> t - lastFrameTime c \<longrightarrow>
      \<not> pushed (sample_tick c t frame)) \<and>
   (pushed (sample_tick c t frame) \<longrightarrow>
      frames (after (sample_tick c t frame)) = frames c @ [the frame]) \<and>
   (\<not> pushed (sample_tick c t frame) \<longrightarrow> after (sample_tick c t frame) = c) \<and>
   ((\<forall>k. truthy (shot k)) \<longrightarrow>
      timestamps (record_ticks (start_recording t0) (steady_clock t0 (667 / 10) shot n')) =
        map (\<lambda>k. t0 + 667 / 10 * of_nat k) [1..<Suc (min n' 45)] \<and>
      frames (closure (record_ticks (start_recording t0) (steady_clock t0 (667 / 10) shot n'))) =
        map (\<lambda>k. the (shot k)) [1..<Suc (min n' 45)])"
proof -
  have exact: "pushed (sample_tick c t frame) \<longleftrightarrow>
      truthy frame \<and> 7505999378950827 / 140737488355328 < fl (t - lastFrameTime c) \<and>
      fl (t - lastFrameTime c) \<le> 80"
    by (simp add: accepts_iff)
  have inside: "truthy frame \<and> 54 \<le> t - lastFrameTime c \<and> t - lastFrameTime c \<le> 80 \<longrightarrow>
      pushed (sample_tick c t frame)"
    by (auto intro: accepts_inside)
  have outside: "t - lastFrameTime c \<le> 160 / 3 \<or> 81 \<le> t - lastFrameTime c \<longrightarrow>
      \<not> pushed (sample_tick c t frame)"
    using rejects_early [of t c frame] rejects_late [of t c frame] by auto
  have whole: "t - lastFrameTime c = of_int n \<longrightarrow>
      (pushed (sample_tick c t frame) \<longleftrightarrow> truthy frame \<and> 54 \<le> n \<and> n \<le> 80)"
  proof
    assume n: "t - lastFrameTime c = of_int n"
    consider "n \<le> 53" | "54 \<le> n" "n \<le> 80" | "81 \<le> n" by linarith
    then show "pushed (sample_tick c t frame) \<longleftrightarrow> truthy frame \<and> 54 \<le> n \<and> n \<le> 80"
    proof cases
      case 1
      then have "rat_of_int n \<le> 53" by simp
      then have "t - lastFrameTime c \<le> 160 / 3" unfolding n by simp
      then show ?thesis using outside 1 by simp
    next
      case 2
      then have "54 \<le> rat_of_int n" "rat_of_int n \<le> 80"
        by simp_all
      then have "54 \<le> t - lastFrameTime c \<and> t - lastFrameTime c \<le> 80" unfolding n by simp
      then show ?thesis using inside 2 by (auto simp: accepts_def)
    next
      case 3
      then have "81 \<le> rat_of_int n" by simp
      then have "81 \<le> t - lastFrameTime c" unfolding n by simp
      then show ?thesis using outside 3 by simp
    qed
  qed
  have yes: "pushed (sample_tick c t frame) \<longrightarrow>
      frames (after (sample_tick c t frame)) = frames c @ [the frame]"
    by (simp add: collect_accepted)
  have no: "\<not> pushed (sample_tick c t frame) \<longrightarrow> after (sample_tick c t frame) = c"
    by (simp add: collect_rejected)
  show ?thesis using exact whole inside outside yes no steady_667 [of shot t0 n'] by blast
qed

theorem tolerance_band_acceptance_witness:
  "pushed (sample_tick (new_session 1000) 1080 (Some ''jpeg'')) \<and>
   pushed (sample_tick (new_session 1000) 1054 (Some ''jpeg'')) \<and>
   frames (after (sample_tick (new_session 1000) 1054 (Some ''jpeg''))) = [''jpeg''] \<and>
   \<not> pushed (sample_tick (new_session 1000) 1053 (Some ''jpeg'')) \<and>
   \<not> pushed (sample_tick (new_session 1000) 1081 (Some ''jpeg'')) \<and>
   \<not> pushed (sample_tick (new_session 1000) 1060 None) \<and>
   after (sample_tick (new_session 1000) 1081 (Some ''jpeg'')) = new_session 1000 \<and>
   truthy (same_shot ''jpeg'' 1) \<and>
   timestamps (record_ticks (start_recording 0) (steady_clock 0 (667 / 10) (same_shot ''jpeg'') 3)) =
     [667 / 10, 667 / 5, 2001 / 10]"
  using tolerance_band_acceptance [of "new_session 1000" 1080 "Some ''jpeg''" 80 "same_shot ''jpeg''" 0 3]
    tolerance_band_acceptance [of "new_session 1000" 1054 "Some ''jpeg''" 54 "same_shot ''jpeg''" 0 3]
    tolerance_band_acceptance [of "new_session 1000" 1053 "Some ''jpeg''" 53 "same_shot ''jpeg''" 0 3]
    tolerance_band_acceptance [of "new_session 1000" 1081 "Some ''jpeg''" 81 "same_shot ''jpeg''" 0 3]
    tolerance_band_acceptance [of "new_session 1000" 1060 None 60 "same_shot ''jpeg''" 0 3]
  by (simp add: new_session_def truthy_def same_shot_def upt_conv_Cons)

subsection \<open>How many frames, and when\<close>

text \<open>
  Claim C7, as the claim states it, fails: with a tick every 60 ms the fiftieth frame is
  appended by the tick at which 3000 ms have elapsed, which is not less than the
  duration, and the session holds 50 frames where duration / nominal interval is 45.
\<close>

theorem collected_frames_counterexample:
  "timestamps (record_ticks (start_recording 0) (steady_clock 0 60 (same_shot ''jpeg'') 50)) ! 49 = 3000 \<and>
   \<not> (3000 - 0 < RECORDING_DURATION) \<and>
   length (frames (closure (record_ticks (start_recording 0) (steady_clock 0 60 (same_shot ''jpeg'') 50)))) = 50 \<and>
   RECORDING_DURATION / (1000 / FRAMES_PER_SECOND) = 45"
proof -
  have band: "1876499844737707 / 35184372088832 \<le> (60 :: rat) \<and> (60 :: rat) \<le> 80"
    by simp
  have early: "\<forall>k. k < 50 \<longrightarrow> 60 * rat_of_nat k < RECORDING_DURATION"
  proof (intro allI impI)
    fix k :: nat
    assume "k < 50"
    then have "k \<le> 49" by simp
    then have "rat_of_nat k \<le> 49" by (simp only: of_nat_le_numeral_iff)
    then show "60 * rat_of_nat k < RECORDING_DURATION"
      by (simp add: RECORDING_DURATION_value)
  qed
  have shots: "\<forall>k. truthy (same_shot ''jpeg'' k)" by (rule truthy_same_shot) simp
  show ?thesis
    using steady_clock_accepted [OF band shots early, of 0]
    by (simp add: RECORDING_DURATION_value FRAMES_PER_SECOND_def)
qed

text \<open>
  Claim C7, amended. In a session run over any ticks there is a frame for every pushed
  timestamp, at most 57 of them; every frame but the last was appended at an elapsed time
  below the duration, and so was the last unless it was appended by the tick that ended
  the session.
\<close>

theorem collected_frames_bound:
  assumes "r = record_ticks (start_recording t0) ticks"
  shows "length (frames (closure r)) = length (timestamps r) \<and>
         length (timestamps r) \<le> 57 \<and>
         (\<forall>ts\<in>set (butlast (timestamps r)). ts - t0 < RECORDING_DURATION) \<and>
         (captured r = None \<longrightarrow> (\<forall>ts\<in>set (timestamps r). ts - t0 < RECORDING_DURATION))"
  using record_ticks_bounded [of "start_recording t0" ticks]
  unfolding assms by (simp add: start_recording_def new_session_def RECORDING_DURATION_value)

theorem collected_frames_bound_witness:
  "timestamps (record_ticks (start_recording 0)
       [(60, Some ''a''), (120, Some ''b''), (150, Some ''c''), (180, Some ''d'')]) = [60, 120, 180] \<and>
   frames (closure (record_ticks (start_recording 0)
       [(60, Some ''a''), (120, Some ''b''), (150, Some ''c''), (180, Some ''d'')])) = [''a'', ''b'', ''d''] \<and>
   captured (record_ticks (start_recording 0)
       [(60, Some ''a''), (120, Some ''b''), (150, Some ''c''), (180, Some ''d'')]) = None \<and>
   (60::rat) - 0 < RECORDING_DURATION \<and> (120::rat) - 0 < RECORDING_DURATION \<and>
   (180::rat) - 0 < RECORDING_DURATION"
  using collected_frames_bound [of "record_ticks (start_recording 0)
       [(60, Some ''a''), (120, Some ''b''), (150, Some ''c''), (180, Some ''d'')]" 0
       "[(60, Some ''a''), (120, Some ''b''), (150, Some ''c''), (180, Some ''d'')]"]
  by (simp add: Let_def start_recording_def new_session_def accepts_eval truthy_def
      collect_def RECORDING_DURATION_value)

text \<open>The bound is attained by a clock that advances 53.4 ms per tick.\<close>

lemma bound_of_57_attained:
  "length (frames (closure (record_ticks (start_recording 0)
      (steady_clock 0 (267 / 5) (same_shot ''jpeg'') 57)))) = 57"
proof -
  have band: "1876499844737707 / 35184372088832 \<le> (267 / 5 :: rat) \<and> (267 / 5 :: rat) \<le> 80"
    by simp
  have early: "\<forall>k. k < 57 \<longrightarrow> 267 / 5 * rat_of_nat k < RECORDING_DURATION"
  proof (intro allI impI)
    fix k :: nat
    assume "k < 57"
    then have "k \<le> 56" by simp
    then have "rat_of_nat k \<le> 56" by (simp only: of_nat_le_numeral_iff)
    then show "267 / 5 * rat_of_nat k < RECORDING_DURATION"
      by (simp add: RECORDING_DURATION_value)
  qed
  have shots: "\<forall>k. truthy (same_shot ''jpeg'' k)" by (rule truthy_same_shot) simp
  show ?thesis
    using steady_clock_accepted [OF band shots early, of 0] by simp
qed

subsection \<open>Progress\<close>

lemmas recorder_defs =
  reacts_def mount_def handleTry_def handleCancel_def countdown_fire_def commit_def
  countdown_effect_def startRecording_def stabilize_fire_def interval_fire_def
  clearInterval_def new_session_def Let_def




subsection \<open>No recovery\<close>

lemma steady_53_rejected:
  "\<forall>tk\<in>set (steady_clock t0 53 shot n). \<not> accepts (new_session t0) (fst tk) (snd tk)"
proof
  fix tk
  assume "tk \<in> set (steady_clock t0 53 shot n)"
  then obtain k where k: "1 \<le> k" and tk: "tk = (t0 + 53 * rat_of_nat k, shot k)"
    unfolding steady_clock_def by auto
  have "53 * rat_of_nat k \<le> 160 / 3 \<or> 81 \<le> 53 * rat_of_nat k"
  proof (cases "k = 1")
    case True
    then show ?thesis by simp
  next
    case False
    then have "2 \<le> k" using k by simp
    then have "2 \<le> rat_of_nat k" by (simp only: numeral_nat_le_iff)
    then show ?thesis by simp
  qed
  then show "\<not> accepts (new_session t0) (fst tk) (snd tk)"
    unfolding tk by (auto simp: accepts_eval new_session_def)
qed

lemma twelve_tenths_of_the_interval: "fl (frameInterval * fl 1.2) = 80"
proof -
  have a: "fl 1.2 = 5404319552844595 / 4503599627370496"
    by (subst fl_eval [where k = 52]) (simp_all add: rne_eval)
  show ?thesis unfolding frameInterval_value a
    by (subst fl_eval [where k = 46]) (simp_all add: rne_eval)
qed

text \<open>
  Claim C10, as the claim states it, fails when the clock steps back: the tick at 1100
  computes a spacing of 100 ms, more than 1.2 nominal intervals, and is rejected; the
  next tick reads 1065 and its frame is accepted.
\<close>

theorem no_recovery_counterexample:
  "80 < fl (1100 - lastFrameTime (closure (start_recording 1000))) \<and>
   \<not> pushed (sample_tick (closure (start_recording 1000)) 1100 (Some ''a'')) \<and>
   timestamps (record_ticks (start_recording 1000) [(1100, Some ''a''), (1065, Some ''b'')]) =
     [1065]"
  by (simp add: Let_def start_recording_def new_session_def accepts_eval truthy_def
      collect_def RECORDING_DURATION_value)

text \<open>
  Claim C10, amended. A tick changes \<open>lastFrameTime\<close> only by accepting a frame. If at
  some tick the spacing it computes since the last accepted frame exceeds 80 ms, which is
  1.2 nominal intervals, that tick is rejected, and so is every later tick of the session
  as long as the clock does not read less than it did at that tick. The period of the
  timer is \<open>floor (0.8 * (1000 / 15)) = 53\<close>; a first tick 53 ms after the start is outside
  the band, and a session whose timer fires exactly every 53 ms collects no frame and,
  once 57 ticks have run, delivers the empty sequence.
\<close>

theorem no_recovery:
  "lastFrameTime (after (sample_tick c t frame)) =
     (if pushed (sample_tick c t frame) then t else lastFrameTime c) \<and>
   fl (frameInterval * fl 1.2) = 80 \<and>
   (80 < fl (t - lastFrameTime (closure rec)) \<and> (\<forall>tk\<in>set ticks. t \<le> fst tk) \<longrightarrow>
      closure (record_ticks rec ((t, frame) # ticks)) = closure rec \<and>
      timestamps (record_ticks rec ((t, frame) # ticks)) = timestamps rec) \<and>
   tick_period = \<lfloor>0.8 * (1000 / 15) :: rat\<rfloor> \<and> tick_period = 53 \<and>
   \<not> pushed (sample_tick (new_session t0) (t0 + of_int tick_period) frame) \<and>
   frames (closure (record_ticks (start_recording t0)
      (steady_clock t0 (of_int tick_period) shot n))) = [] \<and>
   (57 \<le> n \<longrightarrow>
      captured (record_ticks (start_recording t0)
        (steady_clock t0 (of_int tick_period) shot n)) = Some [])"
proof -
  have upd: "lastFrameTime (after (sample_tick c t frame)) =
     (if pushed (sample_tick c t frame) then t else lastFrameTime c)"
    by (simp add: collect_accepted collect_rejected)
  have stuck: "80 < fl (t - lastFrameTime (closure rec)) \<and> (\<forall>tk\<in>set ticks. t \<le> fst tk) \<longrightarrow>
      closure (record_ticks rec ((t, frame) # ticks)) = closure rec \<and>
      timestamps (record_ticks rec ((t, frame) # ticks)) = timestamps rec"
  proof
    assume a: "80 < fl (t - lastFrameTime (closure rec)) \<and> (\<forall>tk\<in>set ticks. t \<le> fst tk)"
    have "\<forall>tk\<in>set ((t, frame) # ticks). \<not> accepts (closure rec) (fst tk) (snd tk)"
    proof
      fix tk
      assume "tk \<in> set ((t, frame) # ticks)"
      then have "t \<le> fst tk" using a by auto
      then have "t - lastFrameTime (closure rec) \<le> fst tk - lastFrameTime (closure rec)" by simp
      then have "fl (t - lastFrameTime (closure rec)) \<le> fl (fst tk - lastFrameTime (closure rec))"
        by (rule fl_mono)
      then have "80 < fl (fst tk - lastFrameTime (closure rec))" using a by linarith
      then show "\<not> accepts (closure rec) (fst tk) (snd tk)" by (simp add: accepts_iff)
    qed
    then show "closure (record_ticks rec ((t, frame) # ticks)) = closure rec \<and>
      timestamps (record_ticks rec ((t, frame) # ticks)) = timestamps rec"
      by (rule record_ticks_all_rejected)
  qed
  have period: "tick_period = \<lfloor>0.8 * (1000 / 15) :: rat\<rfloor>"
    unfolding tick_period_value by (simp add: floor_numeral_quotient)
  have first: "\<not> pushed (sample_tick (new_session t0) (t0 + of_int tick_period) frame)"
    by (simp add: tick_period_value accepts_eval new_session_def)
  let ?run = "record_ticks (start_recording t0) (steady_clock t0 (of_int tick_period) shot n)"
  have rej: "\<forall>tk\<in>set (steady_clock t0 (of_int tick_period) shot n).
      \<not> accepts (closure (start_recording t0)) (fst tk) (snd tk)"
    using steady_53_rejected [of t0 shot n] by (simp add: tick_period_value start_recording_def)
  have same: "closure ?run = closure (start_recording t0)"
    using record_ticks_all_rejected [OF rej] by simp
  then have none: "frames (closure ?run) = []"
    by (simp add: start_recording_def new_session_def)
  have fin: "57 \<le> n \<longrightarrow> captured ?run = Some []"
  proof
    assume n: "57 \<le> n"
    have "(t0 + of_int tick_period * of_nat 57, shot 57) \<in> set (steady_clock t0 (of_int tick_period) shot n)"
      using n by (intro steady_clock_member) simp_all
    then have "\<exists>tk\<in>set (steady_clock t0 (of_int tick_period) shot n).
        RECORDING_DURATION \<le> fst tk - startTime (closure (start_recording t0))"
      by (intro bexI [of _ "(t0 + of_int tick_period * of_nat 57, shot 57)"])
         (simp_all add: RECORDING_DURATION_value start_recording_def new_session_def tick_period_value)
    then have "captured ?run = Some (frames (closure ?run))" by (rule record_ticks_finishes)
    then show "captured ?run = Some []" using none by simp
  qed
  show ?thesis
    using upd twelve_tenths_of_the_interval stuck period tick_period_value first none fin
    by blast
qed

theorem no_recovery_witness:
  "80 < fl (1100 - lastFrameTime (closure (start_recording 1000))) \<and>
   closure (record_ticks (start_recording 1000)
      ((1100, Some ''a'') # [(1150, Some ''b''), (1210, Some ''c'')])) =
     closure (start_recording 1000) \<and>
   (57 :: nat) \<le> 60 \<and>
   captured (record_ticks (start_recording 1000)
        (steady_clock 1000 (of_int tick_period) (same_shot ''jpeg'') 60)) = Some []"
proof -
  have late: "80 < fl (1100 - lastFrameTime (closure (start_recording 1000))) \<and>
      (\<forall>tk\<in>set [(1150 :: rat, Some ''b''), (1210, Some ''c'')]. 1100 \<le> fst tk)"
    by (simp add: start_recording_def new_session_def)
  have n: "(57 :: nat) \<le> 60" by simp
  show ?thesis
    using no_recovery [of "new_session 1000" 1100 "Some ''a''" "start_recording 1000"
      "[(1150, Some ''b''), (1210, Some ''c'')]" 1000 "same_shot ''jpeg''" 60] late n
    by blast
qed

section \<open>Properties of the component\<close>

subsection \<open>The component runs a session\<close>

text \<open>
  When the ref holds the id of the only running interval, the ticks of that interval do to
  the component what \<open>record_ticks\<close> does to the session: while the session has not
  ended the interval runs on with the session's closure and nothing is delivered; when it
  has ended the interval is gone, the recording flag and the progress are reset, the
  frames have been delivered once, and later ticks of that interval do nothing.
\<close>

lemma no_interval_no_tick:
  assumes "intervals r = []"
  shows "reacts r (map (\<lambda>tk. IntervalFire i (fst tk) (snd tk)) ticks) = r"
  using assms unfolding reacts_def
  by (induction ticks) (simp_all add: interval_fire_def)

lemma component_runs_session:
  assumes "frameCollectorRef r = Some i" and "intervals r = [(i, closure rec)]"
    and "captured rec = None"
  shows "case captured (record_ticks rec ticks) of
           None \<Rightarrow>
             intervals (reacts r (map (\<lambda>tk. IntervalFire i (fst tk) (snd tk)) ticks)) =
               [(i, closure (record_ticks rec ticks))] \<and>
             delivered (reacts r (map (\<lambda>tk. IntervalFire i (fst tk) (snd tk)) ticks)) = delivered r
         | Some fs \<Rightarrow>
             intervals (reacts r (map (\<lambda>tk. IntervalFire i (fst tk) (snd tk)) ticks)) = [] \<and>
             delivered (reacts r (map (\<lambda>tk. IntervalFire i (fst tk) (snd tk)) ticks)) = delivered r @ [fs] \<and>
             \<not> isRecording (reacts r (map (\<lambda>tk. IntervalFire i (fst tk) (snd tk)) ticks)) \<and>
             recordingProgress (reacts r (map (\<lambda>tk. IntervalFire i (fst tk) (snd tk)) ticks)) = 0"
  using assms
proof (induction ticks arbitrary: r rec)
  case Nil
  then show ?case by (simp add: reacts_def)
next
  case (Cons tk ticks)
  obtain t frame where tk: "tk = (t, frame)" by (cases tk)
  let ?c = "closure rec"
  let ?evs = "map (\<lambda>tk. IntervalFire i (fst tk) (snd tk)) ticks"
  let ?r1 = "interval_fire i t frame r"
  have split: "reacts r (map (\<lambda>tk. IntervalFire i (fst tk) (snd tk)) (tk # ticks)) = reacts ?r1 ?evs"
    by (simp add: reacts_def tk)
  show ?case
  proof (cases "RECORDING_DURATION \<le> t - startTime ?c")
    case True
    have gone: "intervals ?r1 = []"
      using Cons.prems True by (simp add: interval_fire_def Let_def clearInterval_def)
    have r1: "delivered ?r1 = delivered r @ [frames (collect ?c t frame)]"
      "\<not> isRecording ?r1" "recordingProgress ?r1 = 0"
      using Cons.prems True by (simp_all add: interval_fire_def Let_def)
    have "captured (record_ticks rec (tk # ticks)) = Some (frames (collect ?c t frame))"
      unfolding tk record_ticks_Cons using True by simp
    then show ?thesis
      unfolding split no_interval_no_tick [OF gone] using gone r1 by simp
  next
    case False
    let ?rec1 = "rec\<lparr>closure := collect ?c t frame,
               timestamps := (if accepts ?c t frame then timestamps rec @ [t] else timestamps rec),
               reports := reports rec @ [min ((t - startTime ?c) / RECORDING_DURATION * 100) 100]\<rparr>"
    have ref: "frameCollectorRef ?r1 = Some i"
      and ivs: "intervals ?r1 = [(i, closure ?rec1)]"
      and del: "delivered ?r1 = delivered r"
      using Cons.prems False by (simp_all add: interval_fire_def Let_def)
    have cap: "captured ?rec1 = None" using Cons.prems by simp
    have same: "record_ticks rec (tk # ticks) = record_ticks ?rec1 ticks"
      unfolding tk record_ticks_Cons using False by simp
    from Cons.IH [OF ref ivs cap] show ?thesis
      unfolding split same del .
  qed
qed

subsection \<open>Cancelling\<close>

text \<open>
  While counting down and while recording, \<open>handleCancel\<close> leaves the component idle
  with no timer pending and delivers nothing; when idle it changes nothing, and an idle
  component stays as it is until Try is pressed.
\<close>

lemma cancel_while_counting_down:
  assumes "counting_down r"
  shows "idle (handleCancel r) \<and> delivered (handleCancel r) = delivered r"
  using assms
  by (cases "frameCollectorRef r")
     (auto simp: counting_down_def idle_def handleCancel_def commit_def countdown_effect_def
        clearInterval_def Let_def)

lemma cancel_while_recording:
  assumes "recording_phase r"
  shows "idle (handleCancel r) \<and> delivered (handleCancel r) = delivered r"
proof -
  from assms obtain i where i: "frameCollectorRef r = Some i" "map fst (intervals r) = [i]"
    by (auto simp: recording_phase_def split: option.splits)
  then have "clearInterval i (intervals r) = []"
    by (cases "intervals r") (auto simp: clearInterval_def)
  then show ?thesis
    using assms i
    by (auto simp: recording_phase_def idle_def handleCancel_def commit_def Let_def)
qed

lemma cancel_when_idle:
  assumes "idle r"
  shows "handleCancel r = r"
  using assms
  by (cases "frameCollectorRef r")
     (auto simp: idle_def handleCancel_def commit_def clearInterval_def Let_def)

lemma idle_quiescent:
  assumes "idle r" and "ev \<noteq> Try"
  shows "react r ev = r"
  using assms by (cases ev) (auto simp: idle_def interval_fire_def)

text \<open>
  During the stabilization delay the timeout of line 33 is pending and its id was not
  kept: \<open>handleCancel\<close> cannot clear it.
\<close>

lemma stabilization_survives_cancel:
  assumes "stabilizing_phase r"
  shows "stabilizing (handleCancel r) = 1 \<and> \<not> idle (handleCancel r) \<and>
         react (handleCancel r) (StabilizeFire now) = stabilize_fire now (handleCancel r)"
  using assms
  by (cases "frameCollectorRef r")
     (auto simp: stabilizing_phase_def idle_def handleCancel_def commit_def clearInterval_def Let_def)

lemma countdown_reaches_stabilizing:
  "reacts mount [Try, CountdownFire, CountdownFire, CountdownFire, CountdownFire, CountdownFire] =
     mount\<lparr>isRecording := True, stabilizing := 1\<rparr>"
  by (simp add: recorder_defs)

text \<open>
  Claim C3 on the code: Try, five countdown ticks, and Cancel during the stabilization
  delay. Cancel changes nothing; the component is not idle; the stabilization timeout
  fires, the interval samples, and \<open>onCapture\<close> is called with the recorded frame.
\<close>

theorem cancel_while_stabilizing_delivers:
  "stabilizing_phase
     (reacts mount [Try, CountdownFire, CountdownFire, CountdownFire, CountdownFire, CountdownFire]) \<and>
   reacts mount [Try, CountdownFire, CountdownFire, CountdownFire, CountdownFire, CountdownFire, Cancel] =
     reacts mount [Try, CountdownFire, CountdownFire, CountdownFire, CountdownFire, CountdownFire] \<and>
   \<not> idle (reacts mount
     [Try, CountdownFire, CountdownFire, CountdownFire, CountdownFire, CountdownFire, Cancel]) \<and>
   delivered (reacts mount
     [Try, CountdownFire, CountdownFire, CountdownFire, CountdownFire, CountdownFire, Cancel,
      StabilizeFire 10000, IntervalFire 1 10060 (Some ''jpeg''),
      IntervalFire 1 13000 (Some ''jpeg'')]) = [[''jpeg'']]"
  by (simp add: recorder_defs stabilizing_phase_def idle_def accepts_eval truthy_def collect_def
      RECORDING_DURATION_value)

subsection \<open>A start while a sampling timer runs\<close>

text \<open>
  Claim C9, as the claim states it, fails: a start during a recording leaves the running
  interval in place, and after the stabilization delay two intervals run.
\<close>

theorem reentrant_start_counterexample:
  "map fst (intervals (reacts mount
      [Try, CountdownFire, CountdownFire, CountdownFire, CountdownFire, CountdownFire,
       StabilizeFire 10000])) = [1] \<and>
   map fst (intervals (stabilize_fire 10600 (startRecording (reacts mount
      [Try, CountdownFire, CountdownFire, CountdownFire, CountdownFire, CountdownFire,
       StabilizeFire 10000])))) = [1, 2]"
  by (simp add: recorder_defs)

text \<open>
  Claim C9, amended. \<open>startRecording\<close> clears no timer: it leaves every running
  sampling timer running and arms one more stabilization timeout, and when that fires a
  new sampling timer runs next to the earlier ones. What keeps a start away from a running
  session is the Try button, which does nothing while counting down or recording.
\<close>

theorem reentrant_start_keeps_prior_timer:
  "intervals (startRecording r) = intervals r \<and>
   stabilizing (startRecording r) = Suc (stabilizing r) \<and>
   intervals (stabilize_fire now (startRecording r)) =
     intervals r @ [(nextTimer r, new_session now)] \<and>
   (isCountingDown r \<or> isRecording r \<longrightarrow> react r Try = r)"
  by (simp add: startRecording_def stabilize_fire_def)

theorem reentrant_start_keeps_prior_timer_witness:
  "isRecording (stabilize_fire 10000 (startRecording mount)) \<and>
   react (stabilize_fire 10000 (startRecording mount)) Try = stabilize_fire 10000 (startRecording mount) \<and>
   intervals (stabilize_fire 10600 (startRecording (stabilize_fire 10000 (startRecording mount)))) =
     [(1, new_session 10000), (2, new_session 10600)]"
  using reentrant_start_keeps_prior_timer [of "stabilize_fire 10000 (startRecording mount)" 10600]
  by (simp add: startRecording_def stabilize_fire_def mount_def)

end
